theory Spec2Isabelle
  imports Main "HOL-Library.Product_Lexorder"
begin

section \<open>The matcher the plugin calls: difflib.SequenceMatcher\<close>

text \<open>
  \<^verbatim>\<open>compute_diff\<close> and \<^verbatim>\<open>_apply_inline_highlights\<close> both build
  \<^verbatim>\<open>difflib.SequenceMatcher(None, a, b, autojunk=False)\<close> and read its
  \<^verbatim>\<open>get_opcodes()\<close>. The matcher is the one of the Python standard library
  (CPython, Lib/difflib.py); it is embedded here for \<^verbatim>\<open>isjunk = None\<close> and
  \<^verbatim>\<open>autojunk = False\<close>, the only way the plugin calls it: the junk set
  \<^verbatim>\<open>bjunk\<close> is then empty and no popular element is purged.
\<close>

datatype tag = Equal | Insert | Delete | Replace

type_synonym opcode = "tag \<times> nat \<times> nat \<times> nat \<times> nat"

type_synonym match = "nat \<times> nat \<times> nat"

text \<open>
  \<^verbatim>\<open>__chain_b\<close>: \<^verbatim>\<open>b2j[elt]\<close> is the list of the indices of \<^verbatim>\<open>elt\<close> in
  \<^verbatim>\<open>b\<close>, in increasing order; an element that does not occur in \<^verbatim>\<open>b\<close> has no
  entry, and \<^verbatim>\<open>b2j.get(elt, nothing)\<close> is then the empty list.
\<close>

definition b2j :: "'a list \<Rightarrow> 'a \<Rightarrow> nat list" where
  "b2j b elt = filter (\<lambda>j. b ! j = elt) [0..<length b]"

definition isbjunk :: "'a \<Rightarrow> bool" where
  "isbjunk x = False"

text \<open>
  \<^verbatim>\<open>j2len.get(j-1, 0)\<close>: the dictionary holds natural keys only, so the key
  \<^verbatim>\<open>-1\<close> asked for at \<^verbatim>\<open>j = 0\<close> is never there.
\<close>

definition j2lenget :: "(nat \<rightharpoonup> nat) \<Rightarrow> nat \<Rightarrow> nat" where
  "j2lenget j2len j = (if j = 0 then 0 else (case j2len (j - 1) of None \<Rightarrow> 0 | Some v \<Rightarrow> v))"

text \<open>
  The inner loop of \<^verbatim>\<open>find_longest_match\<close>,
  \<^verbatim>\<open>for j in b2j.get(a[i], nothing)\<close>, with its \<^verbatim>\<open>continue\<close> below
  \<^verbatim>\<open>blo\<close> and its \<^verbatim>\<open>break\<close> at \<^verbatim>\<open>bhi\<close>. The state is
  \<^verbatim>\<open>newj2len\<close> and the best match so far.
\<close>

fun flm_inner ::
  "nat \<Rightarrow> nat \<Rightarrow> nat \<Rightarrow> (nat \<rightharpoonup> nat) \<Rightarrow> nat list \<Rightarrow> (nat \<rightharpoonup> nat) \<times> match
    \<Rightarrow> (nat \<rightharpoonup> nat) \<times> match" where
  "flm_inner i blo bhi j2len [] st = st"
| "flm_inner i blo bhi j2len (j # js) (newj2len, besti, bestj, bestsize) =
     (if j < blo then flm_inner i blo bhi j2len js (newj2len, besti, bestj, bestsize)
      else if j \<ge> bhi then (newj2len, besti, bestj, bestsize)
      else
        (let k = j2lenget j2len j + 1 in
         if k > bestsize
         then flm_inner i blo bhi j2len js (newj2len(j \<mapsto> k), i + 1 - k, j + 1 - k, k)
         else flm_inner i blo bhi j2len js (newj2len(j \<mapsto> k), besti, bestj, bestsize)))"

text \<open>The outer loop, \<^verbatim>\<open>for i in range(alo, ahi)\<close>; the state is \<^verbatim>\<open>j2len\<close> and the best match.\<close>

fun flm_outer ::
  "'a list \<Rightarrow> 'a list \<Rightarrow> nat \<Rightarrow> nat \<Rightarrow> nat list \<Rightarrow> (nat \<rightharpoonup> nat) \<times> match \<Rightarrow> match" where
  "flm_outer a b blo bhi [] (j2len, best) = best"
| "flm_outer a b blo bhi (i # rest) (j2len, best) =
     flm_outer a b blo bhi rest
       (flm_inner i blo bhi j2len (b2j b (a ! i)) (Map.empty, best))"

text \<open>
  The four \<^verbatim>\<open>while\<close> loops that extend the best match at its two ends: first over
  elements that are not junk, then over junk ones. \<open>ok\<close> is the test on
  \<^verbatim>\<open>b[bestj-1]\<close> (or \<^verbatim>\<open>b[bestj+bestsize]\<close>) that the loop makes.
\<close>

function extend_back :: "'a list \<Rightarrow> 'a list \<Rightarrow> nat \<Rightarrow> nat \<Rightarrow> ('a \<Rightarrow> bool) \<Rightarrow> match \<Rightarrow> match" where
  "extend_back a b alo blo ok (besti, bestj, bestsize) =
     (if besti > alo \<and> bestj > blo \<and> ok (b ! (bestj - 1)) \<and> a ! (besti - 1) = b ! (bestj - 1)
      then extend_back a b alo blo ok (besti - 1, bestj - 1, bestsize + 1)
      else (besti, bestj, bestsize))"
  by pat_completeness auto
termination
  by (relation "measure (\<lambda>(a, b, alo, blo, ok, besti, bestj, bestsize). besti)") auto

function extend_fwd :: "'a list \<Rightarrow> 'a list \<Rightarrow> nat \<Rightarrow> nat \<Rightarrow> ('a \<Rightarrow> bool) \<Rightarrow> match \<Rightarrow> match" where
  "extend_fwd a b ahi bhi ok (besti, bestj, bestsize) =
     (if besti + bestsize < ahi \<and> bestj + bestsize < bhi \<and> ok (b ! (bestj + bestsize))
         \<and> a ! (besti + bestsize) = b ! (bestj + bestsize)
      then extend_fwd a b ahi bhi ok (besti, bestj, bestsize + 1)
      else (besti, bestj, bestsize))"
  by pat_completeness auto
termination
  by (relation "measure (\<lambda>(a, b, ahi, bhi, ok, besti, bestj, bestsize). ahi - (besti + bestsize))") auto

declare extend_back.simps [simp del]
declare extend_fwd.simps [simp del]

definition find_longest_match :: "'a list \<Rightarrow> 'a list \<Rightarrow> nat \<Rightarrow> nat \<Rightarrow> nat \<Rightarrow> nat \<Rightarrow> match" where
  "find_longest_match a b alo ahi blo bhi =
     (let best0 = flm_outer a b blo bhi [alo..<ahi] (Map.empty, (alo, blo, 0));
          best1 = extend_back a b alo blo (\<lambda>x. \<not> isbjunk x) best0;
          best2 = extend_fwd a b ahi bhi (\<lambda>x. \<not> isbjunk x) best1;
          best3 = extend_back a b alo blo isbjunk best2;
          best4 = extend_fwd a b ahi bhi isbjunk best3
      in best4)"

subsection \<open>Where the longest match lies\<close>

text \<open>
  The match that \<^verbatim>\<open>find_longest_match\<close> returns lies inside the rectangle it was
  asked about. \<open>j2len_ok\<close> and \<open>best_ok\<close> are the invariants of its loops.
\<close>

definition j2len_ok :: "nat \<Rightarrow> nat \<Rightarrow> nat \<Rightarrow> (nat \<rightharpoonup> nat) \<Rightarrow> bool" where
  "j2len_ok alo blo n m = (\<forall>j v. m j = Some v \<longrightarrow> alo + v \<le> n \<and> blo + v \<le> j + 1)"

definition best_ok :: "nat \<Rightarrow> nat \<Rightarrow> nat \<Rightarrow> nat \<Rightarrow> match \<Rightarrow> bool" where
  "best_ok alo blo n bhi best =
     (case best of (bi, bj, bs) \<Rightarrow>
        alo \<le> bi \<and> blo \<le> bj \<and> (bs = 0 \<and> bi = alo \<and> bj = blo \<or> bi + bs \<le> n \<and> bj + bs \<le> bhi))"

lemma j2lenget_bound:
  assumes "j2len_ok alo blo i j2len" "alo \<le> i" "blo \<le> j"
  shows "alo + (j2lenget j2len j + 1) \<le> i + 1 \<and> blo + (j2lenget j2len j + 1) \<le> j + 1"
  using assms unfolding j2len_ok_def j2lenget_def
  by (auto split: option.splits) fastforce+

lemma flm_inner_ok:
  assumes "alo \<le> i" "j2len_ok alo blo i j2len"
    and "j2len_ok alo blo (i + 1) new" "best_ok alo blo (i + 1) bhi best"
  shows "j2len_ok alo blo (i + 1) (fst (flm_inner i blo bhi j2len js (new, best)))
       \<and> best_ok alo blo (i + 1) bhi (snd (flm_inner i blo bhi j2len js (new, best)))"
  using assms(3,4)
proof (induction js arbitrary: new best)
  case Nil
  then show ?case by simp
next
  case (Cons j js)
  obtain bi bj bs where best: "best = (bi, bj, bs)" by (cases best)
  show ?case
  proof (cases "j < blo")
    case True
    then show ?thesis using Cons best by simp
  next
    case lo: False
    show ?thesis
    proof (cases "bhi \<le> j")
      case True
      then show ?thesis using Cons best lo by simp
    next
      case hi: False
      define k where "k = j2lenget j2len j + 1"
      have kb: "alo + k \<le> i + 1" "blo + k \<le> j + 1"
        using j2lenget_bound[OF assms(2,1), of j] lo unfolding k_def by auto
      have new': "j2len_ok alo blo (i + 1) (new(j \<mapsto> k))"
        using Cons.prems(1) kb unfolding j2len_ok_def by auto
      have best': "best_ok alo blo (i + 1) bhi (i + 1 - k, j + 1 - k, k)"
        using kb hi unfolding best_ok_def by auto
      have step: "flm_inner i blo bhi j2len (j # js) (new, best) =
          (if k > bs then flm_inner i blo bhi j2len js (new(j \<mapsto> k), i + 1 - k, j + 1 - k, k)
           else flm_inner i blo bhi j2len js (new(j \<mapsto> k), best))"
        using lo hi unfolding best k_def by (simp add: Let_def)
      show ?thesis
      proof (cases "k > bs")
        case True
        then show ?thesis using Cons.IH[OF new' best'] by (simp only: step if_True)
      next
        case False
        then show ?thesis using Cons.IH[OF new' Cons.prems(2)] by (simp only: step if_False)
      qed
    qed
  qed
qed

lemma best_ok_mono: "best_ok alo blo n bhi best \<Longrightarrow> n \<le> n' \<Longrightarrow> best_ok alo blo n' bhi best"
  unfolding best_ok_def by (auto split: prod.splits)

lemma flm_outer_ok:
  assumes "alo \<le> m" "m \<le> ahi" "j2len_ok alo blo m j2len" "best_ok alo blo m bhi best"
  shows "best_ok alo blo ahi bhi (flm_outer a b blo bhi [m..<ahi] (j2len, best))"
  using assms
proof (induction "ahi - m" arbitrary: m j2len best)
  case 0
  then show ?case by simp
next
  case (Suc d)
  then have lt: "m < ahi" by simp
  let ?r = "flm_inner m blo bhi j2len (b2j b (a ! m)) (Map.empty, best)"
  have e: "j2len_ok alo blo (m + 1) Map.empty" by (simp add: j2len_ok_def)
  have b1: "best_ok alo blo (m + 1) bhi best" using Suc.prems(4) best_ok_mono by fastforce
  have r: "j2len_ok alo blo (m + 1) (fst ?r)" "best_ok alo blo (m + 1) bhi (snd ?r)"
    using flm_inner_ok[OF Suc.prems(1) Suc.prems(3) e b1] by auto
  have "best_ok alo blo ahi bhi (flm_outer a b blo bhi [Suc m..<ahi] (fst ?r, snd ?r))"
    using Suc.hyps(1)[of "Suc m" "fst ?r" "snd ?r"] Suc.hyps(2) Suc.prems(1) lt r by simp
  then show ?case using lt by (simp add: upt_conv_Cons)
qed

lemma extend_back_ok:
  "best_ok alo blo n bhi best \<Longrightarrow> best_ok alo blo n bhi (extend_back a b alo blo ok best)"
proof (induction a b alo blo ok best rule: extend_back.induct)
  case (1 a b alo blo ok besti bestj bestsize)
  show ?case
  proof (cases "besti > alo \<and> bestj > blo \<and> ok (b ! (bestj - 1)) \<and> a ! (besti - 1) = b ! (bestj - 1)")
    case True
    have "best_ok alo blo n bhi (besti - 1, bestj - 1, bestsize + 1)"
      using "1.prems" True unfolding best_ok_def by auto
    then show ?thesis using "1.IH" True by (subst extend_back.simps) simp
  next
    case False
    then show ?thesis using "1.prems" by (subst extend_back.simps) auto
  qed
qed

lemma extend_fwd_ok:
  "best_ok alo blo ahi bhi best \<Longrightarrow> best_ok alo blo ahi bhi (extend_fwd a b ahi bhi ok best)"
proof (induction a b ahi bhi ok best rule: extend_fwd.induct)
  case (1 a b ahi bhi ok besti bestj bestsize)
  let ?c = "besti + bestsize < ahi \<and> bestj + bestsize < bhi \<and> ok (b ! (bestj + bestsize))
         \<and> a ! (besti + bestsize) = b ! (bestj + bestsize)"
  show ?case
  proof (cases ?c)
    case True
    have "best_ok alo blo ahi bhi (besti, bestj, bestsize + 1)"
      using "1.prems" True unfolding best_ok_def by auto
    then show ?thesis using "1.IH" True by (subst extend_fwd.simps) simp
  next
    case False
    then show ?thesis using "1.prems" by (subst extend_fwd.simps) auto
  qed
qed

lemma find_longest_match_ok:
  "best_ok alo blo ahi bhi (find_longest_match a b alo ahi blo bhi)"
proof -
  have b0: "best_ok alo blo ahi bhi (flm_outer a b blo bhi [alo..<ahi] (Map.empty, (alo, blo, 0)))"
  proof (cases "alo \<le> ahi")
    case True
    show ?thesis
      by (rule flm_outer_ok[OF _ True]) (simp_all add: j2len_ok_def best_ok_def)
  next
    case False
    then show ?thesis by (simp add: best_ok_def)
  qed
  show ?thesis unfolding find_longest_match_def Let_def
    by (intro extend_fwd_ok extend_back_ok b0)
qed

lemma find_longest_match_bounds:
  assumes "find_longest_match a b alo ahi blo bhi = (i, j, k)"
  shows "alo \<le> i \<and> blo \<le> j \<and> (k = 0 \<or> i + k \<le> ahi \<and> j + k \<le> bhi)"
  using find_longest_match_ok[of alo blo ahi bhi a b] assms by (auto simp add: best_ok_def)


subsection \<open>Matching blocks and opcodes\<close>

text \<open>
  \<^verbatim>\<open>get_matching_blocks\<close>: the \<^verbatim>\<open>while queue:\<close> loop. The Python list
  \<^verbatim>\<open>queue\<close> is used as a stack (\<^verbatim>\<open>queue.pop()\<close> takes its last element,
  \<^verbatim>\<open>queue.append\<close> adds one at the end); it is held here with its last element
  first, so that \<^verbatim>\<open>pop\<close> is the head of the list and the rectangle appended last
  stands first.
\<close>

type_synonym rect = "nat \<times> nat \<times> nat \<times> nat"

definition queue_measure :: "rect list \<Rightarrow> nat" where
  "queue_measure queue = sum_list (map (\<lambda>(alo, ahi, blo, bhi). 2 * (ahi - alo) + 1) queue)"

function mb_loop :: "'a list \<Rightarrow> 'a list \<Rightarrow> rect list \<Rightarrow> match list \<Rightarrow> match list" where
  "mb_loop a b [] matching_blocks = matching_blocks"
| "mb_loop a b ((alo, ahi, blo, bhi) # queue) matching_blocks =
     (case find_longest_match a b alo ahi blo bhi of (i, j, k) \<Rightarrow>
        if k \<noteq> 0
        then mb_loop a b
               ((if i + k < ahi \<and> j + k < bhi then [(i + k, ahi, j + k, bhi)] else [])
                @ (if alo < i \<and> blo < j then [(alo, i, blo, j)] else [])
                @ queue)
               (matching_blocks @ [(i, j, k)])
        else mb_loop a b queue matching_blocks)"
  by pat_completeness auto
termination
proof (relation "measure (\<lambda>(a, b, queue, mbs). queue_measure queue)")
  show "wf (measure (\<lambda>(a, b, queue, mbs). queue_measure queue))" by simp
next
  fix a b :: "'a list" and alo ahi blo bhi queue and matching_blocks :: "match list" and i y j k
  assume "(i, y) = find_longest_match a b alo ahi blo bhi" "(j, k) = y" "k \<noteq> 0"
  then have "find_longest_match a b alo ahi blo bhi = (i, j, k)" by simp
  from find_longest_match_bounds[OF this] \<open>k \<noteq> 0\<close>
  have "alo \<le> i" "i + k \<le> ahi" by auto
  then show "((a, b,
         (if i + k < ahi \<and> j + k < bhi then [(i + k, ahi, j + k, bhi)] else []) @
         (if alo < i \<and> blo < j then [(alo, i, blo, j)] else []) @ queue,
         matching_blocks @ [(i, j, k)]),
        a, b, (alo, ahi, blo, bhi) # queue, matching_blocks)
       \<in> measure (\<lambda>(a, b, queue, mbs). queue_measure queue)"
    using \<open>k \<noteq> 0\<close> by (auto simp: queue_measure_def)
next
  fix a b :: "'a list" and alo ahi blo bhi queue and matching_blocks :: "match list"
  show "((a, b, queue, matching_blocks), a, b, (alo, ahi, blo, bhi) # queue, matching_blocks)
       \<in> measure (\<lambda>(a, b, queue, mbs). queue_measure queue)"
    by (simp add: queue_measure_def)
qed

declare mb_loop.simps [simp del]

text \<open>
  The loop that collapses adjacent blocks; its state is the block \<^verbatim>\<open>(i1, j1, k1)\<close> to
  compare against and the list \<^verbatim>\<open>non_adjacent\<close>.
\<close>

fun collapse :: "match list \<Rightarrow> match \<Rightarrow> match list \<Rightarrow> match list" where
  "collapse [] (i1, j1, k1) non_adjacent =
     (if k1 \<noteq> 0 then non_adjacent @ [(i1, j1, k1)] else non_adjacent)"
| "collapse ((i2, j2, k2) # rest) (i1, j1, k1) non_adjacent =
     (if i1 + k1 = i2 \<and> j1 + k1 = j2
      then collapse rest (i1, j1, k1 + k2) non_adjacent
      else collapse rest (i2, j2, k2)
             (if k1 \<noteq> 0 then non_adjacent @ [(i1, j1, k1)] else non_adjacent))"

text \<open>
  \<^verbatim>\<open>matching_blocks.sort()\<close> sorts the triples in Python's order on tuples, which is
  the lexicographic order that HOL-Library.Product_Lexorder gives to products.
\<close>

definition get_matching_blocks :: "'a list \<Rightarrow> 'a list \<Rightarrow> match list" where
  "get_matching_blocks a b =
     (let la = length a; lb = length b;
          matching_blocks = sort (mb_loop a b [(0, la, 0, lb)] []);
          non_adjacent = collapse matching_blocks (0, 0, 0) []
      in non_adjacent @ [(la, lb, 0)])"

text \<open>
  \<^verbatim>\<open>get_opcodes\<close>: the loop over the matching blocks; \<^verbatim>\<open>tag = ''\<close> is
  \<open>None\<close>. The loop variable \<^verbatim>\<open>size\<close> is \<open>sz\<close> here.
\<close>

fun opcodes_loop :: "match list \<Rightarrow> nat \<Rightarrow> nat \<Rightarrow> opcode list \<Rightarrow> opcode list" where
  "opcodes_loop [] i j answer = answer"
| "opcodes_loop ((ai, bj, sz) # rest) i j answer =
     (let tag = (if i < ai \<and> j < bj then Some Replace
                 else if i < ai then Some Delete
                 else if j < bj then Some Insert
                 else None);
          answer1 = (case tag of Some t \<Rightarrow> answer @ [(t, i, ai, j, bj)] | None \<Rightarrow> answer);
          answer2 = (if sz \<noteq> 0 then answer1 @ [(Equal, ai, ai + sz, bj, bj + sz)] else answer1)
      in opcodes_loop rest (ai + sz) (bj + sz) answer2)"

definition get_opcodes :: "'a list \<Rightarrow> 'a list \<Rightarrow> opcode list" where
  "get_opcodes a b = opcodes_loop (get_matching_blocks a b) 0 0 []"

section \<open>The diff engine: \<^verbatim>\<open>compute_diff\<close>\<close>

text \<open>
  A list read \<^verbatim>\<open>xs[i]\<close> with a natural index raises \<^verbatim>\<open>IndexError\<close> out of range.
  \<open>HostError\<close> is any exception that a call into the host editor raises.
\<close>

datatype error = IndexError | HostError

definition getitem :: "'a list \<Rightarrow> nat \<Rightarrow> error + 'a" where
  "getitem xs i = (if i < length xs then Inr (xs ! i) else Inl IndexError)"

type_synonym line = string

definition BLANK_FILL :: line where
  "BLANK_FILL = replicate 120 (CHR ''/'')"

text \<open>The dictionaries \<^verbatim>\<open>left_marks\<close> and \<^verbatim>\<open>right_marks\<close>, with their four keys.\<close>

record marks =
  added :: "nat list"
  deleted :: "nat list"
  changed :: "nat list"
  blank :: "nat list"

record DiffResult =
  left_lines :: "line list"
  right_lines :: "line list"
  left_marks :: marks
  right_marks :: marks
  diff_blocks :: "(nat \<times> nat) list"
  changed_pairs :: "(nat \<times> nat \<times> line \<times> line) list"

definition DiffResult_init :: DiffResult where
  "DiffResult_init =
     \<lparr>left_lines = [], right_lines = [],
      left_marks = \<lparr>added = [], deleted = [], changed = [], blank = []\<rparr>,
      right_marks = \<lparr>added = [], deleted = [], changed = [], blank = []\<rparr>,
      diff_blocks = [], changed_pairs = []\<rparr>"

text \<open>The local variables of \<^verbatim>\<open>compute_diff\<close>, which its loops update.\<close>

record locals =
  result :: DiffResult
  l_out :: "line list"
  r_out :: "line list"
  l_added :: "nat list"
  l_deleted :: "nat list"
  l_changed :: "nat list"
  l_blank :: "nat list"
  r_added :: "nat list"
  r_deleted :: "nat list"
  r_changed :: "nat list"
  r_blank :: "nat list"
  li :: nat
  ri :: nat

definition locals_init :: locals where
  "locals_init =
     \<lparr>result = DiffResult_init, l_out = [], r_out = [],
      l_added = [], l_deleted = [], l_changed = [], l_blank = [],
      r_added = [], r_deleted = [], r_changed = [], r_blank = [],
      li = 0, ri = 0\<rparr>"

text \<open>A \<^verbatim>\<open>for\<close> loop whose body may raise: the first error ends it.\<close>

fun for_each :: "('k \<Rightarrow> 's \<Rightarrow> error + 's) \<Rightarrow> 'k list \<Rightarrow> 's \<Rightarrow> error + 's" where
  "for_each body [] s = Inr s"
| "for_each body (k # ks) s =
     (case body k s of Inl e \<Rightarrow> Inl e | Inr s' \<Rightarrow> for_each body ks s')"

text \<open>
  The bodies of the four inner loops of \<^verbatim>\<open>compute_diff\<close>. Its parameters
  \<^verbatim>\<open>left_lines\<close> and \<^verbatim>\<open>right_lines\<close> are \<open>left\<close> and \<open>right\<close> here, the
  fields of the result keeping their names.
\<close>

definition equal_body :: "line list \<Rightarrow> line list \<Rightarrow> nat \<Rightarrow> nat \<Rightarrow> nat \<Rightarrow> locals \<Rightarrow> error + locals" where
  "equal_body left right i1 j1 k s =
     (case getitem left (i1 + k) of Inl e \<Rightarrow> Inl e | Inr lline \<Rightarrow>
      case getitem right (j1 + k) of Inl e \<Rightarrow> Inl e | Inr rline \<Rightarrow>
        Inr (s\<lparr>l_out := l_out s @ [lline], r_out := r_out s @ [rline],
               li := li s + 1, ri := ri s + 1\<rparr>))"

definition insert_body :: "line list \<Rightarrow> nat \<Rightarrow> nat \<Rightarrow> locals \<Rightarrow> error + locals" where
  "insert_body right j1 k s =
     (case getitem right (j1 + k) of Inl e \<Rightarrow> Inl e | Inr rline \<Rightarrow>
        Inr (s\<lparr>l_out := l_out s @ [BLANK_FILL], r_out := r_out s @ [rline],
               l_blank := l_blank s @ [li s], r_added := r_added s @ [ri s],
               li := li s + 1, ri := ri s + 1\<rparr>))"

definition delete_body :: "line list \<Rightarrow> nat \<Rightarrow> nat \<Rightarrow> locals \<Rightarrow> error + locals" where
  "delete_body left i1 k s =
     (case getitem left (i1 + k) of Inl e \<Rightarrow> Inl e | Inr lline \<Rightarrow>
        Inr (s\<lparr>l_out := l_out s @ [lline], r_out := r_out s @ [BLANK_FILL],
               l_deleted := l_deleted s @ [li s], r_blank := r_blank s @ [ri s],
               li := li s + 1, ri := ri s + 1\<rparr>))"

definition replace_body ::
  "line list \<Rightarrow> line list \<Rightarrow> nat \<Rightarrow> nat \<Rightarrow> nat \<Rightarrow> nat \<Rightarrow> nat \<Rightarrow> locals \<Rightarrow> error + locals" where
  "replace_body left right i1 j1 lcount rcount k s =
     (case (if k < lcount then getitem left (i1 + k) else Inr BLANK_FILL) of Inl e \<Rightarrow> Inl e
      | Inr lline \<Rightarrow>
      case (if k < rcount then getitem right (j1 + k) else Inr BLANK_FILL) of Inl e \<Rightarrow> Inl e
      | Inr rline \<Rightarrow>
        (let s1 = s\<lparr>l_out := l_out s @ [lline], r_out := r_out s @ [rline]\<rparr>;
             s2 = (if k < lcount \<and> k < rcount
                   then s1\<lparr>l_changed := l_changed s1 @ [li s1], r_changed := r_changed s1 @ [ri s1],
                           result := (result s1)\<lparr>changed_pairs :=
                             changed_pairs (result s1) @ [(li s1, ri s1, lline, rline)]\<rparr>\<rparr>
                   else if k < lcount
                   then s1\<lparr>l_deleted := l_deleted s1 @ [li s1], r_blank := r_blank s1 @ [ri s1]\<rparr>
                   else s1\<lparr>l_blank := l_blank s1 @ [li s1], r_added := r_added s1 @ [ri s1]\<rparr>)
         in Inr (s2\<lparr>li := li s2 + 1, ri := ri s2 + 1\<rparr>)))"

text \<open>\<^verbatim>\<open>result.diff_blocks.append((li, ri))\<close>\<close>

definition append_block :: "locals \<Rightarrow> locals" where
  "append_block s = s\<lparr>result := (result s)\<lparr>diff_blocks := diff_blocks (result s) @ [(li s, ri s)]\<rparr>\<rparr>"

text \<open>
  The body of \<^verbatim>\<open>for tag, i1, i2, j1, j2 in matcher.get_opcodes()\<close>. The differences
  \<^verbatim>\<open>i2 - i1\<close> and \<^verbatim>\<open>j2 - j1\<close> are natural here: where Python's would be negative,
  \<^verbatim>\<open>range\<close> is empty and \<^verbatim>\<open>k < lcount\<close> is false, as with the difference 0.
\<close>

definition process_opcode :: "line list \<Rightarrow> line list \<Rightarrow> opcode \<Rightarrow> locals \<Rightarrow> error + locals" where
  "process_opcode left right opc s =
     (case opc of (tag, i1, i2, j1, j2) \<Rightarrow>
        if tag = Equal then for_each (equal_body left right i1 j1) [0..<i2 - i1] s
        else if tag = Insert then for_each (insert_body right j1) [0..<j2 - j1] (append_block s)
        else if tag = Delete then for_each (delete_body left i1) [0..<i2 - i1] (append_block s)
        else if tag = Replace then
          for_each (replace_body left right i1 j1 (i2 - i1) (j2 - j1))
            [0..<max (i2 - i1) (j2 - j1)] (append_block s)
        else Inr s)"

text \<open>The assignments to \<^verbatim>\<open>result\<close> after the loop.\<close>

definition finish :: "locals \<Rightarrow> DiffResult" where
  "finish s =
     (result s)\<lparr>left_lines := l_out s, right_lines := r_out s,
       left_marks := \<lparr>added = l_added s, deleted = l_deleted s,
                       changed = l_changed s, blank = l_blank s\<rparr>,
       right_marks := \<lparr>added = r_added s, deleted = r_deleted s,
                        changed = r_changed s, blank = r_blank s\<rparr>\<rparr>"

definition walk :: "line list \<Rightarrow> line list \<Rightarrow> opcode list \<Rightarrow> error + DiffResult" where
  "walk left right opcodes =
     (case for_each (process_opcode left right) opcodes locals_init of
        Inl e \<Rightarrow> Inl e
      | Inr s \<Rightarrow> Inr (finish s))"

definition compute_diff :: "line list \<Rightarrow> line list \<Rightarrow> error + DiffResult" where
  "compute_diff left right = walk left right (get_opcodes left right)"

section \<open>What the loops of \<^verbatim>\<open>compute_diff\<close> compute\<close>

text \<open>
  Each inner loop is characterised by the state it leaves: the rows it appends, the marks it
  records and the cursors it advances.
\<close>

lemma for_each_append:
  "for_each body (xs @ ys) s =
     (case for_each body xs s of Inl e \<Rightarrow> Inl e | Inr s' \<Rightarrow> for_each body ys s')"
  by (induction xs arbitrary: s) (auto split: sum.splits)

lemma for_each_upt_Suc:
  "for_each body [0..<n] s = Inr s' \<Longrightarrow> for_each body [0..<Suc n] s = body n s'"
  by (simp add: for_each_append split: sum.splits)

lemma take_Suc_drop:
  "i1 + n < length xs \<Longrightarrow> take (Suc n) (drop i1 xs) = take n (drop i1 xs) @ [xs ! (i1 + n)]"
  by (simp add: take_Suc_conv_app_nth)

lemma equal_loop:
  assumes "i1 + n \<le> length left" "j1 + n \<le> length right"
  shows "for_each (equal_body left right i1 j1) [0..<n] s =
     Inr (s\<lparr>l_out := l_out s @ take n (drop i1 left), r_out := r_out s @ take n (drop j1 right),
            li := li s + n, ri := ri s + n\<rparr>)"
  using assms
proof (induction n)
  case 0
  then show ?case by simp
next
  case (Suc n)
  then have ih: "for_each (equal_body left right i1 j1) [0..<n] s =
     Inr (s\<lparr>l_out := l_out s @ take n (drop i1 left), r_out := r_out s @ take n (drop j1 right),
            li := li s + n, ri := ri s + n\<rparr>)" by simp
  from Suc.prems have lt: "i1 + n < length left" "j1 + n < length right" by simp_all
  show ?case
    unfolding for_each_upt_Suc[OF ih]
    using lt by (simp add: equal_body_def getitem_def take_Suc_drop)
qed

lemma insert_loop:
  assumes "j1 + n \<le> length right"
  shows "for_each (insert_body right j1) [0..<n] s =
     Inr (s\<lparr>l_out := l_out s @ replicate n BLANK_FILL, r_out := r_out s @ take n (drop j1 right),
            l_blank := l_blank s @ [li s..<li s + n], r_added := r_added s @ [ri s..<ri s + n],
            li := li s + n, ri := ri s + n\<rparr>)"
  using assms
proof (induction n)
  case 0
  then show ?case by simp
next
  case (Suc n)
  then have ih: "for_each (insert_body right j1) [0..<n] s =
     Inr (s\<lparr>l_out := l_out s @ replicate n BLANK_FILL, r_out := r_out s @ take n (drop j1 right),
            l_blank := l_blank s @ [li s..<li s + n], r_added := r_added s @ [ri s..<ri s + n],
            li := li s + n, ri := ri s + n\<rparr>)" by simp
  from Suc.prems have lt: "j1 + n < length right" by simp
  show ?case
    unfolding for_each_upt_Suc[OF ih]
    using lt by (simp add: insert_body_def getitem_def take_Suc_drop replicate_append_same)
qed

lemma delete_loop:
  assumes "i1 + n \<le> length left"
  shows "for_each (delete_body left i1) [0..<n] s =
     Inr (s\<lparr>l_out := l_out s @ take n (drop i1 left), r_out := r_out s @ replicate n BLANK_FILL,
            l_deleted := l_deleted s @ [li s..<li s + n], r_blank := r_blank s @ [ri s..<ri s + n],
            li := li s + n, ri := ri s + n\<rparr>)"
  using assms
proof (induction n)
  case 0
  then show ?case by simp
next
  case (Suc n)
  then have ih: "for_each (delete_body left i1) [0..<n] s =
     Inr (s\<lparr>l_out := l_out s @ take n (drop i1 left), r_out := r_out s @ replicate n BLANK_FILL,
            l_deleted := l_deleted s @ [li s..<li s + n], r_blank := r_blank s @ [ri s..<ri s + n],
            li := li s + n, ri := ri s + n\<rparr>)" by simp
  from Suc.prems have lt: "i1 + n < length left" by simp
  show ?case
    unfolding for_each_upt_Suc[OF ih]
    using lt by (simp add: delete_body_def getitem_def take_Suc_drop replicate_append_same)
qed

definition replace_rows :: "line list \<Rightarrow> line list \<Rightarrow> nat \<Rightarrow> nat \<Rightarrow> nat \<Rightarrow> nat \<Rightarrow> nat \<Rightarrow> locals \<Rightarrow> locals" where
  "replace_rows left right i1 j1 lcount rcount n s =
     s\<lparr>l_out := l_out s @ take (min n lcount) (drop i1 left) @ replicate (n - lcount) BLANK_FILL,
       r_out := r_out s @ take (min n rcount) (drop j1 right) @ replicate (n - rcount) BLANK_FILL,
       l_changed := l_changed s @ [li s..<li s + min n (min lcount rcount)],
       r_changed := r_changed s @ [ri s..<ri s + min n (min lcount rcount)],
       result := (result s)\<lparr>changed_pairs := changed_pairs (result s) @
          map (\<lambda>k. (li s + k, ri s + k, left ! (i1 + k), right ! (j1 + k)))
            [0..<min n (min lcount rcount)]\<rparr>,
       l_deleted := l_deleted s @ [li s + rcount..<li s + min n lcount],
       r_blank := r_blank s @ [ri s + rcount..<ri s + min n lcount],
       l_blank := l_blank s @ [li s + lcount..<li s + n],
       r_added := r_added s @ [ri s + lcount..<ri s + n],
       li := li s + n, ri := ri s + n\<rparr>"

lemma replace_loop:
  assumes "i1 + lcount \<le> length left" "j1 + rcount \<le> length right" "n \<le> max lcount rcount"
  shows "for_each (replace_body left right i1 j1 lcount rcount) [0..<n] s =
     Inr (replace_rows left right i1 j1 lcount rcount n s)"
  using assms(3)
proof (induction n)
  case 0
  then show ?case by (simp add: replace_rows_def)
next
  case (Suc n)
  then have ih: "for_each (replace_body left right i1 j1 lcount rcount) [0..<n] s =
     Inr (replace_rows left right i1 j1 lcount rcount n s)" by simp
  have nmax: "n < max lcount rcount" using Suc.prems by simp
  consider (both) "n < lcount" "n < rcount" | (left) "n < lcount" "rcount \<le> n" | (right) "lcount \<le> n" "n < rcount"
    using nmax by linarith
  then show ?case
  proof cases
    case both
    then have "i1 + n < length left" "j1 + n < length right" using assms by simp_all
    then show ?thesis unfolding for_each_upt_Suc[OF ih] using both
      by (simp add: replace_body_def replace_rows_def getitem_def take_Suc_drop min_def Let_def)
  next
    case left
    then have "i1 + n < length left" using assms by simp
    then show ?thesis unfolding for_each_upt_Suc[OF ih] using left
      by (simp add: replace_body_def replace_rows_def getitem_def take_Suc_drop min_def Let_def
          replicate_append_same Suc_diff_le)
  next
    case right
    then have "j1 + n < length right" using assms by simp
    then show ?thesis unfolding for_each_upt_Suc[OF ih] using right
      by (simp add: replace_body_def replace_rows_def getitem_def take_Suc_drop min_def Let_def
          replicate_append_same Suc_diff_le)
  qed
qed


subsection \<open>Removing marked rows\<close>

text \<open>
  \<open>remove_rows marked rows\<close> keeps the rows whose index is not in \<open>marked\<close>, in
  order: the Python \<^verbatim>\<open>[x for r, x in enumerate(rows) if r not in marked]\<close>.
\<close>

definition remove_rows :: "nat list \<Rightarrow> 'a list \<Rightarrow> 'a list" where
  "remove_rows marked rows =
     map fst (filter (\<lambda>(x, r). r \<notin> set marked) (zip rows [0..<length rows]))"

lemma remove_rows_nths: "remove_rows marked rows = nths rows (- set marked)"
  unfolding remove_rows_def nths_def
  by (rule arg_cong[where f = "map fst"], rule filter_cong) auto

lemma nths_cong_below:
  "(\<And>i. i < length xs \<Longrightarrow> i \<in> A \<longleftrightarrow> i \<in> B) \<Longrightarrow> nths xs A = nths xs B"
  unfolding nths_def
  by (rule arg_cong[where f = "map fst"], rule filter_cong) (auto simp: set_zip)

lemma remove_rows_real:
  assumes "\<forall>x\<in>set marked. x < length out"
  shows "remove_rows marked (out @ new) = remove_rows marked out @ new"
proof -
  have "nths new {j. j + length out \<in> - set marked} = new"
    using assms by (intro nths_all) auto
  then show ?thesis by (simp add: remove_rows_nths nths_append)
qed

lemma remove_rows_blank:
  assumes "\<forall>x\<in>set marked. x < length out"
  shows "remove_rows (marked @ [length out..<length out + length new]) (out @ new) =
         remove_rows marked out"
proof -
  have 1: "nths out (- set (marked @ [length out..<length out + length new])) = nths out (- set marked)"
    by (rule nths_cong_below) auto
  have "nths new {j. j + length out \<in> - set (marked @ [length out..<length out + length new])} = nths new {}"
    by (rule nths_cong_below) auto
  then show ?thesis using 1 by (simp add: remove_rows_nths nths_append)
qed

lemma side_rows:
  assumes len: "length out = L" and bnd: "\<forall>x\<in>set bl. x < L"
    and rec: "remove_rows bl out = take i xs" and c: "i + c \<le> length xs"
    and u: "u = L + c + p \<or> (p = 0 \<and> u \<le> L + c)"
  shows "remove_rows (bl @ [L + c..<u]) (out @ take c (drop i xs) @ replicate p F) = take (i + c) xs"
proof -
  let ?out = "out @ take c (drop i xs)"
  have l2: "length ?out = L + c" using len c by simp
  have b2: "\<forall>x\<in>set bl. x < length ?out" using bnd l2 by auto
  have real: "remove_rows bl ?out = take (i + c) xs"
    using remove_rows_real[of bl out "take c (drop i xs)"] bnd len rec by (simp add: take_add)
  show ?thesis
  proof (cases "p = 0")
    case True
    then have e: "[L + c..<u] = []" using u by auto
    show ?thesis unfolding e using True real by simp
  next
    case False
    then have "u = L + c + p" using u by simp
    then have "[L + c..<u] = [length ?out..<length ?out + length (replicate p F)]"
      using l2 by simp
    then show ?thesis
      using remove_rows_blank[OF b2, of "replicate p F"] real by (simp del: length_replicate)
  qed
qed

subsection \<open>The invariant of the walk over the opcodes\<close>

text \<open>
  \<open>marks_ok\<close>: the four mark lists of one side are pairwise disjoint and hold rows
  already written. \<open>blocks_ok\<close>: the anchors increase strictly in both components and
  lie below the cursor. \<open>walk_inv\<close>: the two outputs have the length of the cursors,
  which are equal, and without their blank rows they are the parts of the inputs consumed so
  far. \<open>op_ok\<close>: an opcode starts where the previous one ended, stays inside the
  inputs, and has the ranges its tag promises.
\<close>

definition marks_ok :: "nat list \<Rightarrow> nat list \<Rightarrow> nat list \<Rightarrow> nat list \<Rightarrow> nat \<Rightarrow> bool" where
  "marks_ok a d c b n =
     (set a \<inter> set d = {} \<and> set a \<inter> set c = {} \<and> set a \<inter> set b = {}
      \<and> set d \<inter> set c = {} \<and> set d \<inter> set b = {} \<and> set c \<inter> set b = {}
      \<and> set a \<union> set d \<union> set c \<union> set b \<subseteq> {..<n})"

definition blocks_ok :: "(nat \<times> nat) list \<Rightarrow> nat \<Rightarrow> bool" where
  "blocks_ok bs n =
     (sorted_wrt (\<lambda>x y. fst x < fst y \<and> snd x < snd y) bs \<and> (\<forall>x\<in>set bs. fst x < n \<and> snd x < n))"

definition walk_inv :: "line list \<Rightarrow> line list \<Rightarrow> nat \<Rightarrow> nat \<Rightarrow> locals \<Rightarrow> bool" where
  "walk_inv left right i j s =
     (length (l_out s) = li s \<and> length (r_out s) = li s \<and> ri s = li s
      \<and> remove_rows (l_blank s) (l_out s) = take i left
      \<and> remove_rows (r_blank s) (r_out s) = take j right
      \<and> marks_ok (l_added s) (l_deleted s) (l_changed s) (l_blank s) (li s)
      \<and> marks_ok (r_added s) (r_deleted s) (r_changed s) (r_blank s) (li s)
      \<and> blocks_ok (diff_blocks (result s)) (li s))"

definition op_ok :: "nat \<Rightarrow> nat \<Rightarrow> nat \<Rightarrow> nat \<Rightarrow> opcode \<Rightarrow> bool" where
  "op_ok la lb i j opc =
     (case opc of (tag, i1, i2, j1, j2) \<Rightarrow>
        i1 = i \<and> j1 = j \<and> i2 \<le> la \<and> j2 \<le> lb \<and>
        (case tag of
           Equal \<Rightarrow> i1 \<le> i2 \<and> j1 \<le> j2 \<and> i2 - i1 = j2 - j1
         | Insert \<Rightarrow> i2 = i1 \<and> j1 < j2
         | Delete \<Rightarrow> i1 < i2 \<and> j2 = j1
         | Replace \<Rightarrow> i1 < i2 \<and> j1 < j2))"

lemma marks_ok_mono: "marks_ok a d c b n \<Longrightarrow> n \<le> m \<Longrightarrow> marks_ok a d c b m"
  unfolding marks_ok_def by auto

lemma marks_ok_replace_left:
  assumes "marks_ok a d c b n" "n + M \<le> m" "lc \<le> M" "rc \<le> M"
  shows "marks_ok a (d @ [n + rc..<n + lc]) (c @ [n..<n + min lc rc]) (b @ [n + lc..<n + M]) m"
  using assms unfolding marks_ok_def disjoint_iff subset_iff by (auto simp: min_def)

lemma marks_ok_replace_right:
  assumes "marks_ok a d c b n" "n + M \<le> m" "lc \<le> M" "rc \<le> M"
  shows "marks_ok (a @ [n + lc..<n + M]) d (c @ [n..<n + min lc rc]) (b @ [n + rc..<n + lc]) m"
  using assms unfolding marks_ok_def disjoint_iff subset_iff by (auto simp: min_def)

lemma marks_ok_insert_left:
  assumes "marks_ok a d c b n" "n + k \<le> m"
  shows "marks_ok a d c (b @ [n..<n + k]) m"
  using assms unfolding marks_ok_def disjoint_iff subset_iff by auto

lemma marks_ok_insert_right:
  assumes "marks_ok a d c b n" "n + k \<le> m"
  shows "marks_ok (a @ [n..<n + k]) d c b m"
  using assms unfolding marks_ok_def disjoint_iff subset_iff by auto

lemma marks_ok_delete_left:
  assumes "marks_ok a d c b n" "n + k \<le> m"
  shows "marks_ok a (d @ [n..<n + k]) c b m"
  using assms unfolding marks_ok_def disjoint_iff subset_iff by auto

lemma blocks_ok_mono: "blocks_ok bs n \<Longrightarrow> n \<le> m \<Longrightarrow> blocks_ok bs m"
  unfolding blocks_ok_def by fastforce

lemma blocks_ok_append: "blocks_ok bs n \<Longrightarrow> n < m \<Longrightarrow> blocks_ok (bs @ [(n, n)]) m"
  unfolding blocks_ok_def by (fastforce simp: sorted_wrt_append)

lemma marks_ok_blank_bound: "marks_ok a d c b n \<Longrightarrow> \<forall>x\<in>set b. x < n"
  unfolding marks_ok_def by auto

lemma walk_inv_init: "walk_inv left right 0 0 locals_init"
  by (simp add: walk_inv_def locals_init_def DiffResult_init_def remove_rows_def marks_ok_def
      blocks_ok_def)

lemma process_equal:
  assumes inv: "walk_inv left right i j s"
    and ok: "op_ok (length left) (length right) i j (Equal, i1, i2, j1, j2)"
  shows "\<exists>s'. process_opcode left right (Equal, i1, i2, j1, j2) s = Inr s'
            \<and> walk_inv left right i2 j2 s'"
proof -
  define n where "n = i2 - i1"
  from ok have e: "i1 = i" "j1 = j" "i + n = i2" "j + n = j2" "i + n \<le> length left"
    "j + n \<le> length right"
    by (auto simp: op_ok_def n_def)
  let ?s' = "s\<lparr>l_out := l_out s @ take n (drop i left), r_out := r_out s @ take n (drop j right),
            li := li s + n, ri := ri s + n\<rparr>"
  have run: "process_opcode left right (Equal, i1, i2, j1, j2) s = Inr ?s'"
    using equal_loop[OF e(5,6), of s] e(1,2) by (simp add: process_opcode_def n_def)
  from inv have len: "length (l_out s) = li s" "length (r_out s) = li s" "ri s = li s"
    and recl: "remove_rows (l_blank s) (l_out s) = take i left"
    and recr: "remove_rows (r_blank s) (r_out s) = take j right"
    and ml: "marks_ok (l_added s) (l_deleted s) (l_changed s) (l_blank s) (li s)"
    and mr: "marks_ok (r_added s) (r_deleted s) (r_changed s) (r_blank s) (li s)"
    and bl: "blocks_ok (diff_blocks (result s)) (li s)"
    by (simp_all add: walk_inv_def)
  have l: "remove_rows (l_blank s) (l_out s @ take n (drop i left)) = take i2 left"
    using side_rows[OF len(1) marks_ok_blank_bound[OF ml] recl e(5), where p = 0 and u = 0] e(3)
    by simp
  have r: "remove_rows (r_blank s) (r_out s @ take n (drop j right)) = take j2 right"
    using side_rows[OF len(2) marks_ok_blank_bound[OF mr] recr e(6), where p = 0 and u = 0] e(4)
    by simp
  have "walk_inv left right i2 j2 ?s'"
    unfolding walk_inv_def
    using l r len e(5,6) marks_ok_mono[OF ml, of "li s + n"] marks_ok_mono[OF mr, of "li s + n"]
      blocks_ok_mono[OF bl, of "li s + n"]
    by simp
  with run show ?thesis by blast
qed

lemma process_insert:
  assumes inv: "walk_inv left right i j s"
    and ok: "op_ok (length left) (length right) i j (Insert, i1, i2, j1, j2)"
  shows "\<exists>s'. process_opcode left right (Insert, i1, i2, j1, j2) s = Inr s'
            \<and> walk_inv left right i2 j2 s'"
proof -
  define n where "n = j2 - j1"
  from ok have e: "i1 = i" "j1 = j" "i2 = i" "j + n = j2" "i \<le> length left"
    "j + n \<le> length right" "0 < n"
    by (auto simp: op_ok_def n_def)
  let ?s0 = "append_block s"
  let ?s' = "?s0\<lparr>l_out := l_out ?s0 @ replicate n BLANK_FILL,
            r_out := r_out ?s0 @ take n (drop j right),
            l_blank := l_blank ?s0 @ [li ?s0..<li ?s0 + n],
            r_added := r_added ?s0 @ [ri ?s0..<ri ?s0 + n],
            li := li ?s0 + n, ri := ri ?s0 + n\<rparr>"
  have run: "process_opcode left right (Insert, i1, i2, j1, j2) s = Inr ?s'"
    using insert_loop[OF e(6), of ?s0] e(1,2) by (simp add: process_opcode_def n_def)
  from inv have len: "length (l_out s) = li s" "length (r_out s) = li s" "ri s = li s"
    and recl: "remove_rows (l_blank s) (l_out s) = take i left"
    and recr: "remove_rows (r_blank s) (r_out s) = take j right"
    and ml: "marks_ok (l_added s) (l_deleted s) (l_changed s) (l_blank s) (li s)"
    and mr: "marks_ok (r_added s) (r_deleted s) (r_changed s) (r_blank s) (li s)"
    and bl: "blocks_ok (diff_blocks (result s)) (li s)"
    by (simp_all add: walk_inv_def)
  have i0: "i + 0 \<le> length left" using e(5) by simp
  have l: "remove_rows (l_blank s @ [li s..<li s + n]) (l_out s @ replicate n BLANK_FILL) = take i2 left"
    using side_rows[OF len(1) marks_ok_blank_bound[OF ml] recl i0, where p = n and u = "li s + n"
        and F = BLANK_FILL] e(3)
    by simp
  have r: "remove_rows (r_blank s) (r_out s @ take n (drop j right)) = take j2 right"
    using side_rows[OF len(2) marks_ok_blank_bound[OF mr] recr e(6), where p = 0 and u = 0] e(4)
    by simp
  have "walk_inv left right i2 j2 ?s'"
    unfolding walk_inv_def
    using l r len e(5,6,7) marks_ok_insert_left[OF ml, of n "li s + n"]
      marks_ok_insert_right[OF mr, of n "li s + n"]
      blocks_ok_append[OF bl, of "li s + n"]
    by (simp add: append_block_def)
  with run show ?thesis by blast
qed

lemma process_delete:
  assumes inv: "walk_inv left right i j s"
    and ok: "op_ok (length left) (length right) i j (Delete, i1, i2, j1, j2)"
  shows "\<exists>s'. process_opcode left right (Delete, i1, i2, j1, j2) s = Inr s'
            \<and> walk_inv left right i2 j2 s'"
proof -
  define n where "n = i2 - i1"
  from ok have e: "i1 = i" "j1 = j" "j2 = j" "i + n = i2" "j \<le> length right"
    "i + n \<le> length left" "0 < n"
    by (auto simp: op_ok_def n_def)
  let ?s0 = "append_block s"
  let ?s' = "?s0\<lparr>l_out := l_out ?s0 @ take n (drop i left),
            r_out := r_out ?s0 @ replicate n BLANK_FILL,
            l_deleted := l_deleted ?s0 @ [li ?s0..<li ?s0 + n],
            r_blank := r_blank ?s0 @ [ri ?s0..<ri ?s0 + n],
            li := li ?s0 + n, ri := ri ?s0 + n\<rparr>"
  have run: "process_opcode left right (Delete, i1, i2, j1, j2) s = Inr ?s'"
    using delete_loop[OF e(6), of ?s0] e(1,2) by (simp add: process_opcode_def n_def)
  from inv have len: "length (l_out s) = li s" "length (r_out s) = li s" "ri s = li s"
    and recl: "remove_rows (l_blank s) (l_out s) = take i left"
    and recr: "remove_rows (r_blank s) (r_out s) = take j right"
    and ml: "marks_ok (l_added s) (l_deleted s) (l_changed s) (l_blank s) (li s)"
    and mr: "marks_ok (r_added s) (r_deleted s) (r_changed s) (r_blank s) (li s)"
    and bl: "blocks_ok (diff_blocks (result s)) (li s)"
    by (simp_all add: walk_inv_def)
  have j0: "j + 0 \<le> length right" using e(5) by simp
  have r: "remove_rows (r_blank s @ [li s..<li s + n]) (r_out s @ replicate n BLANK_FILL) = take j2 right"
    using side_rows[OF len(2) marks_ok_blank_bound[OF mr] recr j0, where p = n and u = "li s + n"
        and F = BLANK_FILL] e(3)
    by simp
  have l: "remove_rows (l_blank s) (l_out s @ take n (drop i left)) = take i2 left"
    using side_rows[OF len(1) marks_ok_blank_bound[OF ml] recl e(6), where p = 0 and u = 0] e(4)
    by simp
  have "walk_inv left right i2 j2 ?s'"
    unfolding walk_inv_def
    using l r len e(5,6,7) marks_ok_delete_left[OF ml, of n "li s + n"]
      marks_ok_insert_left[OF mr, of n "li s + n"]
      blocks_ok_append[OF bl, of "li s + n"]
    by (simp add: append_block_def)
  with run show ?thesis by blast
qed

lemma process_replace:
  assumes inv: "walk_inv left right i j s"
    and ok: "op_ok (length left) (length right) i j (Replace, i1, i2, j1, j2)"
  shows "\<exists>s'. process_opcode left right (Replace, i1, i2, j1, j2) s = Inr s'
            \<and> walk_inv left right i2 j2 s'"
proof -
  define lc where "lc = i2 - i1"
  define rc where "rc = j2 - j1"
  define M where "M = max lc rc"
  from ok have e: "i1 = i" "j1 = j" "i + lc = i2" "j + rc = j2" "i + lc \<le> length left"
    "j + rc \<le> length right" "0 < lc" "0 < rc"
    by (auto simp: op_ok_def lc_def rc_def)
  have m: "min M lc = lc" "min M rc = rc" "min M (min lc rc) = min lc rc" "lc \<le> M" "rc \<le> M" "0 < M"
    using e(7) by (auto simp: M_def)
  let ?s0 = "append_block s"
  let ?s' = "replace_rows left right i j lc rc M ?s0"
  have run: "process_opcode left right (Replace, i1, i2, j1, j2) s = Inr ?s'"
    using replace_loop[OF e(5,6), of M ?s0] e(1,2)
    by (simp add: process_opcode_def lc_def rc_def M_def)
  from inv have len: "length (l_out s) = li s" "length (r_out s) = li s" "ri s = li s"
    and recl: "remove_rows (l_blank s) (l_out s) = take i left"
    and recr: "remove_rows (r_blank s) (r_out s) = take j right"
    and ml: "marks_ok (l_added s) (l_deleted s) (l_changed s) (l_blank s) (li s)"
    and mr: "marks_ok (r_added s) (r_deleted s) (r_changed s) (r_blank s) (li s)"
    and bl: "blocks_ok (diff_blocks (result s)) (li s)"
    by (simp_all add: walk_inv_def)
  have ul: "li s + M = li s + lc + (M - lc) \<or> (M - lc = 0 \<and> li s + M \<le> li s + lc)"
    using m(4) by simp
  have ur: "li s + lc = li s + rc + (M - rc) \<or> (M - rc = 0 \<and> li s + lc \<le> li s + rc)"
    unfolding M_def by (cases "lc \<le> rc") auto
  have l: "remove_rows (l_blank s @ [li s + lc..<li s + M])
             (l_out s @ take lc (drop i left) @ replicate (M - lc) BLANK_FILL) = take i2 left"
    using side_rows[OF len(1) marks_ok_blank_bound[OF ml] recl e(5) ul, of BLANK_FILL] e(3)
    by simp
  have r: "remove_rows (r_blank s @ [li s + rc..<li s + lc])
             (r_out s @ take rc (drop j right) @ replicate (M - rc) BLANK_FILL) = take j2 right"
    using side_rows[OF len(2) marks_ok_blank_bound[OF mr] recr e(6) ur, of BLANK_FILL] e(4)
    by simp
  have lenl: "length (l_out s @ take lc (drop i left) @ replicate (M - lc) BLANK_FILL) = li s + M"
    using len(1) e(5) m(4) by simp
  have lenr: "length (r_out s @ take rc (drop j right) @ replicate (M - rc) BLANK_FILL) = li s + M"
    using len(2) e(6) m(5) by simp
  have f1: "l_out ?s' = l_out s @ take lc (drop i left) @ replicate (M - lc) BLANK_FILL"
    and f2: "r_out ?s' = r_out s @ take rc (drop j right) @ replicate (M - rc) BLANK_FILL"
    and f3: "li ?s' = li s + M" and f4: "ri ?s' = li s + M"
    and f5: "l_blank ?s' = l_blank s @ [li s + lc..<li s + M]"
    and f6: "r_blank ?s' = r_blank s @ [li s + rc..<li s + lc]"
    and f7: "l_added ?s' = l_added s" and f8: "r_deleted ?s' = r_deleted s"
    and f9: "l_deleted ?s' = l_deleted s @ [li s + rc..<li s + lc]"
    and f10: "r_added ?s' = r_added s @ [li s + lc..<li s + M]"
    and f11: "l_changed ?s' = l_changed s @ [li s..<li s + min lc rc]"
    and f12: "r_changed ?s' = r_changed s @ [li s..<li s + min lc rc]"
    and f13: "diff_blocks (result ?s') = diff_blocks (result s) @ [(li s, li s)]"
    using m(1,2,3) len(3) by (simp_all add: replace_rows_def append_block_def)
  have le: "li s + M \<le> li s + M" by simp
  have lt: "li s < li s + M" using m(6) by simp
  have "walk_inv left right i2 j2 ?s'"
    unfolding walk_inv_def f1 f2 f3 f4 f5 f6 f7 f8 f9 f10 f11 f12 f13
    using l r lenl lenr marks_ok_replace_left[OF ml le m(4,5)]
      marks_ok_replace_right[OF mr le m(4,5)] blocks_ok_append[OF bl lt]
    by blast
  with run show ?thesis by blast
qed

lemma process_opcode_inv:
  assumes "walk_inv left right i j s"
    and "op_ok (length left) (length right) i j (tag, i1, i2, j1, j2)"
  shows "\<exists>s'. process_opcode left right (tag, i1, i2, j1, j2) s = Inr s'
            \<and> walk_inv left right i2 j2 s'"
proof (cases tag)
  case Equal
  show ?thesis unfolding Equal by (rule process_equal[OF assms(1) assms(2)[unfolded Equal]])
next
  case Insert
  show ?thesis unfolding Insert by (rule process_insert[OF assms(1) assms(2)[unfolded Insert]])
next
  case Delete
  show ?thesis unfolding Delete by (rule process_delete[OF assms(1) assms(2)[unfolded Delete]])
next
  case Replace
  show ?thesis unfolding Replace by (rule process_replace[OF assms(1) assms(2)[unfolded Replace]])
qed

fun valid_ops :: "nat \<Rightarrow> nat \<Rightarrow> nat \<Rightarrow> nat \<Rightarrow> opcode list \<Rightarrow> bool" where
  "valid_ops la lb i j [] = (i = la \<and> j = lb)"
| "valid_ops la lb i j ((tag, i1, i2, j1, j2) # ops) =
     (op_ok la lb i j (tag, i1, i2, j1, j2) \<and> valid_ops la lb i2 j2 ops)"

lemma for_each_opcodes_inv:
  assumes "valid_ops (length left) (length right) i j ops" "walk_inv left right i j s"
  shows "\<exists>s'. for_each (process_opcode left right) ops s = Inr s'
            \<and> walk_inv left right (length left) (length right) s'"
  using assms
proof (induction ops arbitrary: i j s)
  case Nil
  then show ?case by simp
next
  case (Cons opc ops)
  obtain tag i1 i2 j1 j2 where opc: "opc = (tag, i1, i2, j1, j2)" by (cases opc)
  from Cons.prems opc have ok: "op_ok (length left) (length right) i j (tag, i1, i2, j1, j2)"
    and rest: "valid_ops (length left) (length right) i2 j2 ops" by simp_all
  from process_opcode_inv[OF Cons.prems(2) ok] obtain s1
    where s1: "process_opcode left right (tag, i1, i2, j1, j2) s = Inr s1"
      "walk_inv left right i2 j2 s1" by blast
  from Cons.IH[OF rest s1(2)] show ?case using s1(1) opc by simp
qed

section \<open>The opcodes of the matcher partition both inputs\<close>

text \<open>
  The rectangles still in \<^verbatim>\<open>queue\<close> and the blocks already found are pairwise
  comparable: one lies wholly before the other in both sequences. Sorting the blocks then
  puts them in that order, collapsing adjacent ones keeps it, and \<^verbatim>\<open>get_opcodes\<close>
  turns the ordered blocks, closed by the sentinel, into opcodes that satisfy \<open>valid_ops\<close>.
\<close>

definition rbefore :: "rect \<Rightarrow> rect \<Rightarrow> bool" where
  "rbefore r r' = (case r of (alo, ahi, blo, bhi) \<Rightarrow> case r' of (alo', ahi', blo', bhi') \<Rightarrow>
     ahi \<le> alo' \<and> bhi \<le> blo')"

definition comparable :: "rect \<Rightarrow> rect \<Rightarrow> bool" where
  "comparable r r' = (rbefore r r' \<or> rbefore r' r)"

definition rect_of :: "match \<Rightarrow> rect" where
  "rect_of m = (case m of (i, j, k) \<Rightarrow> (i, i + k, j, j + k))"

definition subrect :: "rect \<Rightarrow> rect \<Rightarrow> bool" where
  "subrect s r = (case s of (alo, ahi, blo, bhi) \<Rightarrow> case r of (alo', ahi', blo', bhi') \<Rightarrow>
     alo' \<le> alo \<and> ahi \<le> ahi' \<and> blo' \<le> blo \<and> bhi \<le> bhi')"

definition block_ok :: "nat \<Rightarrow> nat \<Rightarrow> match \<Rightarrow> bool" where
  "block_ok la lb m = (case m of (i, j, k) \<Rightarrow> 0 < k \<and> i + k \<le> la \<and> j + k \<le> lb)"

definition rect_ok :: "nat \<Rightarrow> nat \<Rightarrow> rect \<Rightarrow> bool" where
  "rect_ok la lb r = (case r of (alo, ahi, blo, bhi) \<Rightarrow> ahi \<le> la \<and> bhi \<le> lb)"

definition mb_inv :: "nat \<Rightarrow> nat \<Rightarrow> rect list \<Rightarrow> match list \<Rightarrow> bool" where
  "mb_inv la lb queue mbs =
     (sorted_wrt comparable (map rect_of mbs @ queue)
      \<and> (\<forall>r\<in>set queue. rect_ok la lb r) \<and> (\<forall>m\<in>set mbs. block_ok la lb m))"

lemma comparable_sym: "comparable r r' \<Longrightarrow> comparable r' r"
  by (auto simp: comparable_def)

lemma subrect_comparable: "comparable r y \<Longrightarrow> subrect s r \<Longrightarrow> comparable s y"
  unfolding comparable_def rbefore_def subrect_def by (auto split: prod.splits)

lemma subrect_comparable': "comparable y r \<Longrightarrow> subrect s r \<Longrightarrow> comparable y s"
  using subrect_comparable comparable_sym by blast

lemma mb_inv_step:
  assumes inv: "mb_inv la lb ((alo, ahi, blo, bhi) # queue) mbs"
    and b: "alo \<le> i" "blo \<le> j" "i + k \<le> ahi" "j + k \<le> bhi" "0 < k"
  shows "mb_inv la lb
           ((if i + k < ahi \<and> j + k < bhi then [(i + k, ahi, j + k, bhi)] else [])
            @ (if alo < i \<and> blo < j then [(alo, i, blo, j)] else []) @ queue)
           (mbs @ [(i, j, k)])"
proof -
  let ?r = "(alo, ahi, blo, bhi)" and ?r1 = "(alo, i, blo, j)" and ?r2 = "(i + k, ahi, j + k, bhi)"
  let ?blk = "rect_of (i, j, k)"
  let ?new = "(if i + k < ahi \<and> j + k < bhi then [?r2] else []) @ (if alo < i \<and> blo < j then [?r1] else [])"
  from inv have s1: "sorted_wrt comparable (map rect_of mbs)"
    and s2: "sorted_wrt comparable queue"
    and c1: "\<forall>x\<in>set (map rect_of mbs). comparable x ?r"
    and c2: "\<forall>x\<in>set (map rect_of mbs). \<forall>y\<in>set queue. comparable x y"
    and c3: "\<forall>y\<in>set queue. comparable ?r y"
    and ok: "rect_ok la lb ?r" "\<forall>r\<in>set queue. rect_ok la lb r" "\<forall>m\<in>set mbs. block_ok la lb m"
    unfolding mb_inv_def by (auto simp: sorted_wrt_append)
  have sub: "subrect ?r1 ?r" "subrect ?r2 ?r" "subrect ?blk ?r"
    using b by (auto simp: subrect_def rect_of_def)
  have among: "comparable ?blk ?r1" "comparable ?blk ?r2" "comparable ?r2 ?r1"
    by (auto simp: comparable_def rbefore_def rect_of_def)
  have newsub: "\<forall>s\<in>set ?new. subrect s ?r" using sub by auto
  have "\<forall>x\<in>set (map rect_of mbs). comparable x ?blk"
    using c1 sub(3) subrect_comparable' by blast
  then have t1: "sorted_wrt comparable (map rect_of (mbs @ [(i, j, k)]))"
    using s1 by (simp add: sorted_wrt_append)
  have n1: "\<forall>s\<in>set ?new. \<forall>y\<in>set queue. comparable s y"
    using c3 newsub subrect_comparable by blast
  have n2: "sorted_wrt comparable ?new" using among(3) by simp
  have t2: "sorted_wrt comparable (?new @ queue)"
    using s2 n1 n2 by (simp only: sorted_wrt_append) blast
  have t3: "\<forall>x\<in>set (map rect_of (mbs @ [(i, j, k)])). \<forall>y\<in>set (?new @ queue). comparable x y"
  proof (intro ballI)
    fix x y assume x: "x \<in> set (map rect_of (mbs @ [(i, j, k)]))" and y: "y \<in> set (?new @ queue)"
    from x consider (old) "x \<in> set (map rect_of mbs)" | (blk) "x = ?blk" by auto
    then show "comparable x y"
    proof cases
      case old
      from y consider "y \<in> set ?new" | "y \<in> set queue" by auto
      then show ?thesis
      proof cases
        case 1
        then have "subrect y ?r" using newsub by blast
        then show ?thesis using c1 old subrect_comparable' by blast
      next
        case 2
        then show ?thesis using c2 old by blast
      qed
    next
      case blk
      from y consider "y = ?r1" | "y = ?r2" | "y \<in> set queue" by (auto split: if_splits)
      then show ?thesis
      proof cases
        case 1 then show ?thesis using among(1) blk by simp
      next
        case 2 then show ?thesis using among(2) blk by simp
      next
        case 3
        then show ?thesis using c3 sub(3) subrect_comparable blk by blast
      qed
    qed
  qed
  have ok1: "\<forall>r\<in>set (?new @ queue). rect_ok la lb r"
    using ok(1,2) b by (auto simp: rect_ok_def)
  have ok2: "\<forall>m\<in>set (mbs @ [(i, j, k)]). block_ok la lb m"
    using ok(1,3) b by (auto simp: rect_ok_def block_ok_def)
  have "sorted_wrt comparable (map rect_of (mbs @ [(i, j, k)]) @ (?new @ queue))"
    using t1 t2 t3 by (simp only: sorted_wrt_append) blast
  then show ?thesis unfolding mb_inv_def using ok1 ok2 by simp
qed

lemma mb_inv_drop: "mb_inv la lb (r # queue) mbs \<Longrightarrow> mb_inv la lb queue mbs"
  unfolding mb_inv_def by (auto simp: sorted_wrt_append)

lemma mb_loop_inv:
  "mb_inv la lb queue mbs \<Longrightarrow> mb_inv la lb [] (mb_loop a b queue mbs)"
proof (induction a b queue mbs rule: mb_loop.induct)
  case (1 a b matching_blocks)
  then show ?case by (simp add: mb_loop.simps)
next
  case (2 a b alo ahi blo bhi queue matching_blocks)
  obtain i j k where f: "find_longest_match a b alo ahi blo bhi = (i, j, k)"
    by (cases "find_longest_match a b alo ahi blo bhi")
  show ?case
  proof (cases "k = 0")
    case True
    then show ?thesis
      using "2.IH"(2)[OF f[symmetric] refl] mb_inv_drop[OF "2.prems"] f
      by (simp add: mb_loop.simps)
  next
    case False
    from find_longest_match_bounds[OF f] False
    have b: "alo \<le> i" "blo \<le> j" "i + k \<le> ahi" "j + k \<le> bhi" "0 < k" by auto
    show ?thesis
      using "2.IH"(1)[OF f[symmetric] refl False mb_inv_step[OF "2.prems" b]] f False
      by (simp add: mb_loop.simps)
  qed
qed

definition before :: "match \<Rightarrow> match \<Rightarrow> bool" where
  "before m m' = (case m of (i, j, k) \<Rightarrow> case m' of (i', j', k') \<Rightarrow> i + k \<le> i' \<and> j + k \<le> j')"

lemma comparable_blocks:
  assumes "comparable (rect_of x) (rect_of y)" "block_ok la lb x" "block_ok la lb y" "x \<le> y"
  shows "before x y"
proof -
  obtain i j k where x: "x = (i, j, k)" by (cases x)
  obtain i' j' k' where y: "y = (i', j', k')" by (cases y)
  from assms(4) have "i \<le> i'" unfolding x y by auto
  moreover from assms(2,3) have "0 < k" "0 < k'" unfolding x y block_ok_def by auto
  ultimately show ?thesis
    using assms(1) unfolding x y comparable_def rbefore_def rect_of_def before_def by auto
qed

lemma sorted_wrt_in_set:
  assumes "sorted_wrt P xs" "\<And>x y. P x y \<Longrightarrow> P y x" "x \<in> set xs" "y \<in> set xs" "x \<noteq> y"
  shows "P x y"
  using assms by (induction xs) auto

lemma sorted_wrt_irrefl_distinct:
  assumes "sorted_wrt P xs" "\<forall>x\<in>set xs. \<not> P x x"
  shows "distinct xs"
  using assms by (induction xs) auto

lemma sorted_distinct_wrt:
  assumes "sorted xs" "distinct xs" "\<And>x y. x \<in> set xs \<Longrightarrow> y \<in> set xs \<Longrightarrow> x \<noteq> y \<Longrightarrow> x \<le> y \<Longrightarrow> Q x y"
  shows "sorted_wrt Q xs"
  using assms by (induction xs) auto

lemma sort_blocks_before:
  assumes "mb_inv la lb [] mbs"
  shows "sorted_wrt before (sort mbs) \<and> (\<forall>m\<in>set (sort mbs). block_ok la lb m)"
proof -
  from assms have s: "sorted_wrt comparable (map rect_of mbs)" and ok: "\<forall>m\<in>set mbs. block_ok la lb m"
    by (simp_all add: mb_inv_def)
  have s': "sorted_wrt (\<lambda>x y. comparable (rect_of x) (rect_of y)) mbs"
    using s by (simp add: sorted_wrt_map)
  have irr: "\<forall>x\<in>set mbs. \<not> comparable (rect_of x) (rect_of x)"
    using ok by (auto simp: comparable_def rbefore_def rect_of_def block_ok_def)
  have d: "distinct mbs" using sorted_wrt_irrefl_distinct[OF s' irr] .
  have c: "\<And>x y. x \<in> set mbs \<Longrightarrow> y \<in> set mbs \<Longrightarrow> x \<noteq> y \<Longrightarrow> comparable (rect_of x) (rect_of y)"
    using sorted_wrt_in_set[OF s'] comparable_sym by blast
  have "sorted_wrt before (sort mbs)"
  proof (rule sorted_distinct_wrt)
    show "sorted (sort mbs)" by simp
    show "distinct (sort mbs)" using d by simp
    fix x y assume a: "x \<in> set (sort mbs)" "y \<in> set (sort mbs)" "x \<noteq> y" "x \<le> y"
    then have xm: "x \<in> set mbs" and ym: "y \<in> set mbs" by simp_all
    show "before x y"
      by (rule comparable_blocks[OF c[OF xm ym a(3)] _ _ a(4)]) (use ok xm ym in blast)+
  qed
  then show ?thesis using ok by simp
qed

definition ends_ok :: "nat \<Rightarrow> nat \<Rightarrow> match \<Rightarrow> bool" where
  "ends_ok la lb m = (case m of (i, j, k) \<Rightarrow> i + k \<le> la \<and> j + k \<le> lb)"

lemma before_grow: "before x (i1, j1, k1) \<Longrightarrow> before x (i1, j1, k1 + k2)"
  by (auto simp: before_def split: prod.splits)

lemma before_merge:
  "i1 + k1 = i2 \<Longrightarrow> j1 + k1 = j2 \<Longrightarrow> before (i2, j2, k2) y \<Longrightarrow> before (i1, j1, k1 + k2) y"
  by (auto simp: before_def split: prod.splits)

lemma collapse_before:
  assumes "sorted_wrt before (non_adjacent @ cur # rest)"
    and "\<forall>m\<in>set (non_adjacent @ cur # rest). ends_ok la lb m"
  shows "sorted_wrt before (collapse rest cur non_adjacent)
       \<and> (\<forall>m\<in>set (collapse rest cur non_adjacent). ends_ok la lb m)"
  using assms
proof (induction rest arbitrary: cur non_adjacent)
  case Nil
  obtain i1 j1 k1 where cur: "cur = (i1, j1, k1)" by (cases cur)
  show ?case using Nil unfolding cur by (auto simp: sorted_wrt_append)
next
  case (Cons m rest)
  obtain i1 j1 k1 where cur: "cur = (i1, j1, k1)" by (cases cur)
  obtain i2 j2 k2 where m: "m = (i2, j2, k2)" by (cases m)
  show ?case
  proof (cases "i1 + k1 = i2 \<and> j1 + k1 = j2")
    case True
    from Cons.prems(1) have a: "sorted_wrt before non_adjacent" "sorted_wrt before rest"
      "\<forall>x\<in>set non_adjacent. before x (i1, j1, k1)"
      "\<forall>x\<in>set non_adjacent. \<forall>y\<in>set rest. before x y"
      "\<forall>y\<in>set rest. before (i2, j2, k2) y"
      unfolding cur m by (simp_all add: sorted_wrt_append)
    have a3: "\<forall>x\<in>set non_adjacent. before x (i1, j1, k1 + k2)"
      using a(3) before_grow by blast
    have a5: "\<forall>y\<in>set rest. before (i1, j1, k1 + k2) y"
      using a(5) before_merge True by blast
    have 1: "sorted_wrt before (non_adjacent @ (i1, j1, k1 + k2) # rest)"
      using a(1,2,4) a3 a5 by (simp add: sorted_wrt_append)
    have 2: "\<forall>m\<in>set (non_adjacent @ (i1, j1, k1 + k2) # rest). ends_ok la lb m"
      using Cons.prems(2) True unfolding cur m by (auto simp: ends_ok_def)
    show ?thesis using Cons.IH[OF 1 2] True unfolding cur m by simp
  next
    case False
    show ?thesis
    proof (cases "k1 = 0")
      case z: True
      have 1: "sorted_wrt before (non_adjacent @ (i2, j2, k2) # rest)"
        using Cons.prems(1) unfolding cur m by (auto simp: sorted_wrt_append)
      have 2: "\<forall>m\<in>set (non_adjacent @ (i2, j2, k2) # rest). ends_ok la lb m"
        using Cons.prems(2) unfolding cur m by auto
      show ?thesis using Cons.IH[OF 1 2] z unfolding cur m by (simp add: False)
    next
      case nz: False
      have 1: "sorted_wrt before ((non_adjacent @ [(i1, j1, k1)]) @ (i2, j2, k2) # rest)"
        using Cons.prems(1) unfolding cur m by simp
      have 2: "\<forall>m\<in>set ((non_adjacent @ [(i1, j1, k1)]) @ (i2, j2, k2) # rest). ends_ok la lb m"
        using Cons.prems(2) unfolding cur m by auto
      show ?thesis using Cons.IH[OF 1 2] nz unfolding cur m by (simp add: False)
    qed
  qed
qed

lemma get_matching_blocks_before:
  "sorted_wrt before (get_matching_blocks a b)
   \<and> (\<forall>m\<in>set (get_matching_blocks a b). ends_ok (length a) (length b) m)
   \<and> (\<exists>ms. get_matching_blocks a b = ms @ [(length a, length b, 0)])"
proof -
  let ?la = "length a" and ?lb = "length b"
  let ?sorted = "sort (mb_loop a b [(0, ?la, 0, ?lb)] [])"
  have "mb_inv ?la ?lb [(0, ?la, 0, ?lb)] []" by (simp add: mb_inv_def rect_ok_def)
  from sort_blocks_before[OF mb_loop_inv[OF this]]
  have s: "sorted_wrt before ?sorted" and ok: "\<forall>m\<in>set ?sorted. block_ok ?la ?lb m" by blast+
  have e: "\<forall>m\<in>set ?sorted. ends_ok ?la ?lb m"
    using ok by (auto simp: block_ok_def ends_ok_def)
  have 1: "sorted_wrt before ([] @ (0, 0, 0) # ?sorted)"
    using s by (auto simp: before_def)
  have 2: "\<forall>m\<in>set ([] @ (0, 0, 0) # ?sorted). ends_ok ?la ?lb m"
    using e by (auto simp: ends_ok_def)
  from collapse_before[OF 1 2]
  have c: "sorted_wrt before (collapse ?sorted (0, 0, 0) [])"
    and ce: "\<forall>m\<in>set (collapse ?sorted (0, 0, 0) []). ends_ok ?la ?lb m" by blast+
  have "\<forall>m\<in>set (collapse ?sorted (0, 0, 0) []). before m (?la, ?lb, 0)"
    using ce by (auto simp: ends_ok_def before_def)
  then have "sorted_wrt before (collapse ?sorted (0, 0, 0) [] @ [(?la, ?lb, 0)])"
    using c by (simp add: sorted_wrt_append)
  moreover have "\<forall>m\<in>set (collapse ?sorted (0, 0, 0) [] @ [(?la, ?lb, 0)]). ends_ok ?la ?lb m"
    using ce by (auto simp: ends_ok_def)
  ultimately show ?thesis by (simp add: get_matching_blocks_def Let_def)
qed

lemma opcodes_loop_acc:
  "opcodes_loop ms i j answer = answer @ opcodes_loop ms i j []"
proof (induction ms arbitrary: i j answer)
  case Nil
  then show ?case by simp
next
  case (Cons m ms)
  obtain ai bj sz where m: "m = (ai, bj, sz)" by (cases m)
  show ?case
    unfolding m opcodes_loop.simps Let_def
    by (subst Cons.IH, subst (2) Cons.IH) (simp split: option.splits)
qed

lemma opcodes_loop_valid:
  assumes "sorted_wrt before (ms @ [(la, lb, 0)])"
    and "\<forall>m\<in>set ms. ends_ok la lb m"
    and "\<forall>m\<in>set (ms @ [(la, lb, 0)]). i \<le> fst m \<and> j \<le> fst (snd m)"
  shows "valid_ops la lb i j (opcodes_loop (ms @ [(la, lb, 0)]) i j [])"
  using assms
proof (induction ms arbitrary: i j)
  case Nil
  then show ?case by (auto simp: op_ok_def)
next
  case (Cons m ms)
  obtain ai bj sz where m: "m = (ai, bj, sz)" by (cases m)
  from Cons.prems(3) have le: "i \<le> ai" "j \<le> bj" unfolding m by auto
  from Cons.prems(2) have en: "ai + sz \<le> la" "bj + sz \<le> lb" unfolding m by (auto simp: ends_ok_def)
  have 1: "sorted_wrt before (ms @ [(la, lb, 0)])" using Cons.prems(1) by simp
  have 2: "\<forall>m\<in>set ms. ends_ok la lb m" using Cons.prems(2) by simp
  have 3: "\<forall>x\<in>set (ms @ [(la, lb, 0)]). ai + sz \<le> fst x \<and> bj + sz \<le> fst (snd x)"
    using Cons.prems(1) unfolding m by (auto simp: before_def)
  note ih = Cons.IH[OF 1 2 3]
  let ?rest = "opcodes_loop (ms @ [(la, lb, 0)]) (ai + sz) (bj + sz) []"
  have eq: "valid_ops la lb ai bj
              ((if sz \<noteq> 0 then [(Equal, ai, ai + sz, bj, bj + sz)] else []) @ ?rest)"
    using ih en by (auto simp: op_ok_def)
  have "opcodes_loop ((m # ms) @ [(la, lb, 0)]) i j [] =
      (if i < ai \<and> j < bj then [(Replace, i, ai, j, bj)]
       else if i < ai then [(Delete, i, ai, j, bj)]
       else if j < bj then [(Insert, i, ai, j, bj)] else [])
      @ (if sz \<noteq> 0 then [(Equal, ai, ai + sz, bj, bj + sz)] else []) @ ?rest"
    unfolding m by (simp add: Let_def opcodes_loop_acc[of _ _ _ "_ # _"] )
  then show ?case using eq le en by (auto simp: op_ok_def)
qed

lemma get_opcodes_valid: "valid_ops (length a) (length b) 0 0 (get_opcodes a b)"
proof -
  from get_matching_blocks_before[of a b] obtain ms
    where ms: "get_matching_blocks a b = ms @ [(length a, length b, 0)]"
      and s: "sorted_wrt before (ms @ [(length a, length b, 0)])"
      and e: "\<forall>m\<in>set ms. ends_ok (length a) (length b) m"
    by auto
  show ?thesis
    unfolding get_opcodes_def ms by (rule opcodes_loop_valid[OF s e]) simp
qed

subsection \<open>The matcher on two equal sequences\<close>

text \<open>
  On \<open>(a, a)\<close> the longest match is the whole sequence: in row \<open>i\<close> of
  \<^verbatim>\<open>find_longest_match\<close> the diagonal entry \<^verbatim>\<open>newj2len[i]\<close> is \<open>i + 1\<close> and no
  other entry is larger, so the best match after the row is \<open>(0, 0, i + 1)\<close>.
\<close>

lemma j2lenget_le:
  assumes "j2len_ok 0 0 i j2len"
  shows "j2lenget j2len j \<le> i \<and> j2lenget j2len j \<le> j"
  using assms unfolding j2len_ok_def j2lenget_def
  by (cases "j = 0"; cases "j2len (j - 1)") (simp_all, fastforce)

lemma flm_inner_seen:
  assumes "j2len_ok 0 0 i j2len" "\<forall>j\<in>set js. i < j \<and> j < n" "new i = Some v"
  shows "snd (flm_inner i 0 n j2len js (new, (0, 0, i + 1))) = (0, 0, i + 1)
       \<and> fst (flm_inner i 0 n j2len js (new, (0, 0, i + 1))) i = Some v"
  using assms(2,3)
proof (induction js arbitrary: new)
  case Nil
  then show ?case by simp
next
  case (Cons j js)
  define k where "k = j2lenget j2len j + 1"
  have k: "\<not> k > i + 1" using j2lenget_le[OF assms(1), of j] by (simp add: k_def)
  have j: "\<not> j < 0" "\<not> n \<le> j" "j \<noteq> i" using Cons.prems by auto
  have st: "flm_inner i 0 n j2len (j # js) (new, (0, 0, i + 1)) =
        flm_inner i 0 n j2len js (new(j \<mapsto> k), (0, 0, i + 1))"
    using k j unfolding k_def by (simp add: Let_def)
  have ih: "snd (flm_inner i 0 n j2len js (new(j \<mapsto> k), (0, 0, i + 1))) = (0, 0, i + 1)
       \<and> fst (flm_inner i 0 n j2len js (new(j \<mapsto> k), (0, 0, i + 1))) i = Some v"
    by (rule Cons.IH) (use Cons.prems j(3) in simp_all)
  show ?case unfolding st by (rule ih)
qed

lemma flm_inner_unseen:
  assumes "j2len_ok 0 0 i j2len" "j2lenget j2len i = i"
    and "sorted_wrt (<) js" "\<forall>j\<in>set js. j < n" "i \<in> set js"
  shows "snd (flm_inner i 0 n j2len js (new, (0, 0, i))) = (0, 0, i + 1)
       \<and> fst (flm_inner i 0 n j2len js (new, (0, 0, i))) i = Some (i + 1)"
  using assms(3,4,5)
proof (induction js arbitrary: new)
  case Nil
  then show ?case by simp
next
  case (Cons j js)
  define k where "k = j2lenget j2len j + 1"
  have j: "\<not> j < 0" "\<not> n \<le> j" using Cons.prems by auto
  show ?case
  proof (cases "j = i")
    case True
    have rest: "\<forall>j\<in>set js. i < j \<and> j < n" using Cons.prems True by auto
    have st: "flm_inner i 0 n j2len (j # js) (new, (0, 0, i)) =
          flm_inner i 0 n j2len js (new(i \<mapsto> i + 1), (0, 0, i + 1))"
      using j True assms(2) by (simp add: Let_def)
    have u: "(new(i \<mapsto> i + 1)) i = Some (i + 1)" by simp
    show ?thesis unfolding st
      by (rule flm_inner_seen[where new = "new(i \<mapsto> i + 1)", OF assms(1) rest u])
  next
    case False
    then have mem: "i \<in> set js" using Cons.prems(3) by simp
    then have "j < i" using Cons.prems(1) by auto
    then have k: "\<not> k > i" using j2lenget_le[OF assms(1), of j] by (simp add: k_def)
    have st: "flm_inner i 0 n j2len (j # js) (new, (0, 0, i)) =
          flm_inner i 0 n j2len js (new(j \<mapsto> k), (0, 0, i))"
      using j k unfolding k_def by (simp add: Let_def)
    have ih: "snd (flm_inner i 0 n j2len js (new(j \<mapsto> k), (0, 0, i))) = (0, 0, i + 1)
       \<and> fst (flm_inner i 0 n j2len js (new(j \<mapsto> k), (0, 0, i))) i = Some (i + 1)"
      by (rule Cons.IH) (use Cons.prems mem in simp_all)
    show ?thesis unfolding st by (rule ih)
  qed
qed

lemma b2j_self:
  assumes "i < length a"
  shows "sorted_wrt (<) (b2j a (a ! i))" "\<forall>j\<in>set (b2j a (a ! i)). j < length a"
    "i \<in> set (b2j a (a ! i))"
  using assms unfolding b2j_def by (auto intro: sorted_wrt_filter)

lemma flm_outer_same:
  assumes "m \<le> length a" "j2len_ok 0 0 m j2len" "j2lenget j2len m = m"
  shows "flm_outer a a 0 (length a) [m..<length a] (j2len, (0, 0, m)) = (0, 0, length a)"
  using assms
proof (induction "length a - m" arbitrary: m j2len)
  case 0
  then show ?case by simp
next
  case (Suc d)
  then have lt: "m < length a" by simp
  let ?r = "flm_inner m 0 (length a) j2len (b2j a (a ! m)) (Map.empty, (0, 0, m))"
  have e: "j2len_ok 0 0 (m + 1) Map.empty" by (simp add: j2len_ok_def)
  have b: "best_ok 0 0 (m + 1) (length a) (0, 0, m)" using lt by (simp add: best_ok_def)
  have ok: "j2len_ok 0 0 (m + 1) (fst ?r)"
    using flm_inner_ok[OF _ Suc.prems(2) e b, of "b2j a (a ! m)"] by simp
  have r: "snd ?r = (0, 0, m + 1)" "fst ?r m = Some (m + 1)"
    using flm_inner_unseen[OF Suc.prems(2,3) b2j_self[OF lt], of Map.empty] by simp_all
  have g: "j2lenget (fst ?r) (Suc m) = Suc m" using r(2) by (simp add: j2lenget_def)
  have "flm_outer a a 0 (length a) [Suc m..<length a] (fst ?r, (0, 0, Suc m)) = (0, 0, length a)"
    using Suc.hyps(1)[of "Suc m" "fst ?r"] Suc.hyps(2) lt ok g by simp
  moreover have "?r = (fst ?r, (0, 0, Suc m))" using r(1) by (simp add: prod_eq_iff)
  ultimately show ?case using lt by (simp add: upt_conv_Cons)
qed

lemma find_longest_match_same:
  "find_longest_match a a 0 (length a) 0 (length a) = (0, 0, length a)"
proof -
  have "flm_outer a a 0 (length a) [0..<length a] (Map.empty, (0, 0, 0)) = (0, 0, length a)"
    by (rule flm_outer_same) (simp_all add: j2len_ok_def j2lenget_def)
  then show ?thesis
    by (simp add: find_longest_match_def extend_back.simps extend_fwd.simps)
qed

lemma get_opcodes_same:
  "get_opcodes a a = (if a = [] then [] else [(Equal, 0, length a, 0, length a)])"
proof (cases "a = []")
  case True
  then show ?thesis
    using find_longest_match_same[of a]
    by (simp add: get_opcodes_def get_matching_blocks_def mb_loop.simps)
next
  case False
  then have "mb_loop a a [(0, length a, 0, length a)] [] = [(0, 0, length a)]"
    using find_longest_match_same[of a] by (simp add: mb_loop.simps)
  then show ?thesis
    using False by (simp add: get_opcodes_def get_matching_blocks_def Let_def)
qed

section \<open>Properties of the Diff Model\<close>

text \<open>
  The walk over the opcodes of the matcher never reads out of range, and its invariant
  holds at the end with both inputs consumed.
\<close>

definition marks_disjoint :: "marks \<Rightarrow> bool" where
  "marks_disjoint m =
     (set (added m) \<inter> set (deleted m) = {} \<and> set (added m) \<inter> set (changed m) = {}
      \<and> set (added m) \<inter> set (blank m) = {} \<and> set (deleted m) \<inter> set (changed m) = {}
      \<and> set (deleted m) \<inter> set (blank m) = {} \<and> set (changed m) \<inter> set (blank m) = {})"

lemma compute_diff_inv:
  "\<exists>s. compute_diff left right = Inr (finish s)
       \<and> walk_inv left right (length left) (length right) s"
proof -
  from for_each_opcodes_inv[OF get_opcodes_valid walk_inv_init, of left right]
  obtain s where "for_each (process_opcode left right) (get_opcodes left right) locals_init = Inr s"
    and "walk_inv left right (length left) (length right) s" by blast
  then show ?thesis by (auto simp: compute_diff_def walk_def)
qed

text \<open>
  C5. For every pair of input line sequences, empty ones included, \<^verbatim>\<open>compute_diff\<close>
  returns a Diff Model whose \<^verbatim>\<open>left_lines\<close> and \<^verbatim>\<open>right_lines\<close> have the same
  length.
\<close>

theorem length_invariant:
  "\<exists>d. compute_diff left right = Inr d \<and> length (left_lines d) = length (right_lines d)"
proof -
  from compute_diff_inv[of left right] obtain s
    where c: "compute_diff left right = Inr (finish s)"
      and w: "walk_inv left right (length left) (length right) s" by blast
  have "length (left_lines (finish s)) = length (right_lines (finish s))"
    using w by (simp add: walk_inv_def finish_def)
  with c show ?thesis by blast
qed

text \<open>
  C1. For every pair of input line sequences, removing from \<^verbatim>\<open>left_lines\<close> the rows
  whose index is in the left \<^verbatim>\<open>blank\<close> marks gives the left input, element for
  element and in order; and the same on the right.
\<close>

theorem reconstruction:
  "\<exists>d. compute_diff left right = Inr d
       \<and> remove_rows (blank (left_marks d)) (left_lines d) = left
       \<and> remove_rows (blank (right_marks d)) (right_lines d) = right"
proof -
  from compute_diff_inv[of left right] obtain s
    where c: "compute_diff left right = Inr (finish s)"
      and w: "walk_inv left right (length left) (length right) s" by blast
  have "remove_rows (blank (left_marks (finish s))) (left_lines (finish s)) = left"
    "remove_rows (blank (right_marks (finish s))) (right_lines (finish s)) = right"
    using w by (simp_all add: walk_inv_def finish_def)
  with c show ?thesis by blast
qed

text \<open>
  C2. For every pair of input line sequences, \<^verbatim>\<open>diff_blocks\<close> increases strictly in
  its left component and in its right component: an anchor that precedes another is
  smaller in both.
\<close>

theorem block_ordering:
  "\<exists>d. compute_diff left right = Inr d
       \<and> sorted_wrt (\<lambda>x y. fst x < fst y \<and> snd x < snd y) (diff_blocks d)"
proof -
  from compute_diff_inv[of left right] obtain s
    where c: "compute_diff left right = Inr (finish s)"
      and w: "walk_inv left right (length left) (length right) s" by blast
  have "sorted_wrt (\<lambda>x y. fst x < fst y \<and> snd x < snd y) (diff_blocks (finish s))"
    using w by (simp add: walk_inv_def finish_def blocks_ok_def)
  with c show ?thesis by blast
qed

text \<open>
  C10. For every pair of input line sequences, on each side the four mark lists
  \<^verbatim>\<open>added\<close>, \<^verbatim>\<open>deleted\<close>, \<^verbatim>\<open>changed\<close>, \<^verbatim>\<open>blank\<close> are pairwise
  disjoint: no row index is in two of them.
\<close>

theorem row_classification_exclusive:
  "\<exists>d. compute_diff left right = Inr d
       \<and> marks_disjoint (left_marks d) \<and> marks_disjoint (right_marks d)"
proof -
  from compute_diff_inv[of left right] obtain s
    where c: "compute_diff left right = Inr (finish s)"
      and w: "walk_inv left right (length left) (length right) s" by blast
  have "marks_disjoint (left_marks (finish s))" "marks_disjoint (right_marks (finish s))"
    using w by (simp_all add: walk_inv_def finish_def marks_ok_def marks_disjoint_def)
  with c show ?thesis by blast
qed

text \<open>
  The locals of \<^verbatim>\<open>compute_diff\<close> on \<^verbatim>\<open>["a","b","c"]\<close> and
  \<^verbatim>\<open>["a","x","c"]\<close> after the first opcode, \<^verbatim>\<open>("equal", 0, 1, 0, 1)\<close>.
\<close>

definition after_first_equal :: locals where
  "after_first_equal = locals_init\<lparr>l_out := [''a''], r_out := [''a''], li := 1, ri := 1\<rparr>"

text \<open>
  C4. A \<^verbatim>\<open>replace\<close> opcode whose ranges have the lengths \<open>lcount\<close> and \<open>rcount\<close>
  and lie inside the inputs appends exactly \<open>max lcount rcount\<close> rows to each output.
  The first \<open>min lcount rcount\<close> rows hold the real text of both sides, are marked
  \<^verbatim>\<open>changed\<close> on both sides and are appended to \<^verbatim>\<open>changed_pairs\<close>; the rows from
  \<open>min\<close> up to \<open>lcount\<close> are marked \<^verbatim>\<open>deleted\<close> on the left and are filler marked
  \<^verbatim>\<open>blank\<close> on the right; the rows from \<open>min\<close> up to \<open>rcount\<close> are marked
  \<^verbatim>\<open>added\<close> on the right and are filler marked \<^verbatim>\<open>blank\<close> on the left; one anchor
  is recorded, at the cursors before the loop. And on \<^verbatim>\<open>["a","b","c"]\<close> and
  \<^verbatim>\<open>["a","x","c"]\<close> the result has one block at row 1, the inputs as its lines, the
  changed marks \<^verbatim>\<open>[1]\<close> on both sides and the changed pair \<^verbatim>\<open>(1, 1, "b", "x")\<close>.
\<close>

theorem replace_opcode_rows:
  "(i1 + lcount \<le> length left \<and> j1 + rcount \<le> length right \<longrightarrow>
     (\<exists>s'. process_opcode left right (Replace, i1, i1 + lcount, j1, j1 + rcount) s = Inr s'
        \<and> length (l_out s') = length (l_out s) + max lcount rcount
        \<and> length (r_out s') = length (r_out s) + max lcount rcount
        \<and> l_out s' = l_out s @ take lcount (drop i1 left)
                        @ replicate (max lcount rcount - lcount) BLANK_FILL
        \<and> r_out s' = r_out s @ take rcount (drop j1 right)
                        @ replicate (max lcount rcount - rcount) BLANK_FILL
        \<and> l_changed s' = l_changed s @ [li s..<li s + min lcount rcount]
        \<and> r_changed s' = r_changed s @ [ri s..<ri s + min lcount rcount]
        \<and> changed_pairs (result s') = changed_pairs (result s)
             @ map (\<lambda>k. (li s + k, ri s + k, left ! (i1 + k), right ! (j1 + k)))
                 [0..<min lcount rcount]
        \<and> l_deleted s' = l_deleted s @ [li s + min lcount rcount..<li s + lcount]
        \<and> r_blank s' = r_blank s @ [ri s + min lcount rcount..<ri s + lcount]
        \<and> l_blank s' = l_blank s @ [li s + min lcount rcount..<li s + rcount]
        \<and> r_added s' = r_added s @ [ri s + min lcount rcount..<ri s + rcount]
        \<and> l_added s' = l_added s \<and> r_deleted s' = r_deleted s
        \<and> diff_blocks (result s') = diff_blocks (result s) @ [(li s, ri s)]
        \<and> li s' = li s + max lcount rcount \<and> ri s' = ri s + max lcount rcount))
   \<and> compute_diff [''a'', ''b'', ''c''] [''a'', ''x'', ''c''] =
       Inr \<lparr>left_lines = [''a'', ''b'', ''c''], right_lines = [''a'', ''x'', ''c''],
            left_marks = \<lparr>added = [], deleted = [], changed = [1], blank = []\<rparr>,
            right_marks = \<lparr>added = [], deleted = [], changed = [1], blank = []\<rparr>,
            diff_blocks = [(1, 1)], changed_pairs = [(1, 1, ''b'', ''x'')]\<rparr>"
proof (intro conjI impI)
  assume a: "i1 + lcount \<le> length left \<and> j1 + rcount \<le> length right"
  define M where "M = max lcount rcount"
  let ?s' = "replace_rows left right i1 j1 lcount rcount M (append_block s)"
  have m: "min M lcount = lcount" "min M rcount = rcount"
    "min M (min lcount rcount) = min lcount rcount"
    by (auto simp: M_def)
  have "for_each (replace_body left right i1 j1 lcount rcount) [0..<M] (append_block s) = Inr ?s'"
    using a by (intro replace_loop) (simp_all add: M_def)
  then have run: "process_opcode left right (Replace, i1, i1 + lcount, j1, j1 + rcount) s = Inr ?s'"
    by (simp add: process_opcode_def M_def)
  have d: "[li s + rcount..<li s + lcount] = [li s + min lcount rcount..<li s + lcount]"
    "[ri s + rcount..<ri s + lcount] = [ri s + min lcount rcount..<ri s + lcount]"
    by (cases "lcount \<le> rcount"; simp add: min_def)+
  have b: "[li s + lcount..<li s + M] = [li s + min lcount rcount..<li s + rcount]"
    "[ri s + lcount..<ri s + M] = [ri s + min lcount rcount..<ri s + rcount]"
    by (cases "lcount \<le> rcount"; simp add: min_def max_def M_def)+
  have len: "length (take lcount (drop i1 left)) = lcount" "length (take rcount (drop j1 right)) = rcount"
    using a by auto
  have f: "l_out ?s' = l_out s @ take lcount (drop i1 left) @ replicate (M - lcount) BLANK_FILL"
    "r_out ?s' = r_out s @ take rcount (drop j1 right) @ replicate (M - rcount) BLANK_FILL"
    "l_changed ?s' = l_changed s @ [li s..<li s + min lcount rcount]"
    "r_changed ?s' = r_changed s @ [ri s..<ri s + min lcount rcount]"
    "changed_pairs (result ?s') = changed_pairs (result s)
             @ map (\<lambda>k. (li s + k, ri s + k, left ! (i1 + k), right ! (j1 + k)))
                 [0..<min lcount rcount]"
    "l_deleted ?s' = l_deleted s @ [li s + rcount..<li s + lcount]"
    "r_blank ?s' = r_blank s @ [ri s + rcount..<ri s + lcount]"
    "l_blank ?s' = l_blank s @ [li s + lcount..<li s + M]"
    "r_added ?s' = r_added s @ [ri s + lcount..<ri s + M]"
    "l_added ?s' = l_added s" "r_deleted ?s' = r_deleted s"
    "diff_blocks (result ?s') = diff_blocks (result s) @ [(li s, ri s)]"
    "li ?s' = li s + M" "ri ?s' = ri s + M"
    using m by (simp_all add: replace_rows_def append_block_def)
  have l: "length (l_out s @ take lcount (drop i1 left) @ replicate (M - lcount) BLANK_FILL)
             = length (l_out s) + M"
    "length (r_out s @ take rcount (drop j1 right) @ replicate (M - rcount) BLANK_FILL)
             = length (r_out s) + M"
    using len by (simp_all add: M_def)
  show "\<exists>s'. process_opcode left right (Replace, i1, i1 + lcount, j1, j1 + rcount) s = Inr s'
        \<and> length (l_out s') = length (l_out s) + max lcount rcount
        \<and> length (r_out s') = length (r_out s) + max lcount rcount
        \<and> l_out s' = l_out s @ take lcount (drop i1 left)
                        @ replicate (max lcount rcount - lcount) BLANK_FILL
        \<and> r_out s' = r_out s @ take rcount (drop j1 right)
                        @ replicate (max lcount rcount - rcount) BLANK_FILL
        \<and> l_changed s' = l_changed s @ [li s..<li s + min lcount rcount]
        \<and> r_changed s' = r_changed s @ [ri s..<ri s + min lcount rcount]
        \<and> changed_pairs (result s') = changed_pairs (result s)
             @ map (\<lambda>k. (li s + k, ri s + k, left ! (i1 + k), right ! (j1 + k)))
                 [0..<min lcount rcount]
        \<and> l_deleted s' = l_deleted s @ [li s + min lcount rcount..<li s + lcount]
        \<and> r_blank s' = r_blank s @ [ri s + min lcount rcount..<ri s + lcount]
        \<and> l_blank s' = l_blank s @ [li s + min lcount rcount..<li s + rcount]
        \<and> r_added s' = r_added s @ [ri s + min lcount rcount..<ri s + rcount]
        \<and> l_added s' = l_added s \<and> r_deleted s' = r_deleted s
        \<and> diff_blocks (result s') = diff_blocks (result s) @ [(li s, ri s)]
        \<and> li s' = li s + max lcount rcount \<and> ri s' = ri s + max lcount rcount"
    unfolding M_def[symmetric]
    by (rule exI[of _ ?s']) (simp only: run l f d b simp_thms)
next
  show "compute_diff [''a'', ''b'', ''c''] [''a'', ''x'', ''c''] =
       Inr \<lparr>left_lines = [''a'', ''b'', ''c''], right_lines = [''a'', ''x'', ''c''],
            left_marks = \<lparr>added = [], deleted = [], changed = [1], blank = []\<rparr>,
            right_marks = \<lparr>added = [], deleted = [], changed = [1], blank = []\<rparr>,
            diff_blocks = [(1, 1)], changed_pairs = [(1, 1, ''b'', ''x'')]\<rparr>"
    by code_simp
qed

theorem replace_opcode_rows_witness:
  "1 + 1 \<le> length [''a'', ''b'', ''c''] \<and> 1 + 1 \<le> length [''a'', ''x'', ''c'']
   \<and> (\<exists>s'. process_opcode [''a'', ''b'', ''c''] [''a'', ''x'', ''c''] (Replace, 1, 1 + 1, 1, 1 + 1)
              after_first_equal = Inr s'
        \<and> l_out s' = [''a'', ''b''] \<and> r_out s' = [''a'', ''x'']
        \<and> l_changed s' = [1] \<and> r_changed s' = [1]
        \<and> changed_pairs (result s') = [(1, 1, ''b'', ''x'')]
        \<and> l_deleted s' = [] \<and> r_blank s' = [] \<and> l_blank s' = [] \<and> r_added s' = []
        \<and> diff_blocks (result s') = [(1, 1)] \<and> li s' = 2 \<and> ri s' = 2)"
proof -
  have h: "1 + 1 \<le> length [''a'', ''b'', ''c''] \<and> 1 + 1 \<le> length [''a'', ''x'', ''c'']" by simp
  from replace_opcode_rows[of 1 1 "[''a'', ''b'', ''c'']" 1 1 "[''a'', ''x'', ''c'']" after_first_equal] h
  obtain s' where s: "process_opcode [''a'', ''b'', ''c''] [''a'', ''x'', ''c''] (Replace, 1, 1 + 1, 1, 1 + 1)
              after_first_equal = Inr s'"
    and f: "l_out s' = l_out after_first_equal @ take 1 (drop 1 [''a'', ''b'', ''c''])
                        @ replicate (max 1 1 - 1) BLANK_FILL"
      "r_out s' = r_out after_first_equal @ take 1 (drop 1 [''a'', ''x'', ''c''])
                        @ replicate (max 1 1 - 1) BLANK_FILL"
      "l_changed s' = l_changed after_first_equal @ [li after_first_equal..<li after_first_equal + min 1 1]"
      "r_changed s' = r_changed after_first_equal @ [ri after_first_equal..<ri after_first_equal + min 1 1]"
      "changed_pairs (result s') = changed_pairs (result after_first_equal)
             @ map (\<lambda>k. (li after_first_equal + k, ri after_first_equal + k,
                          [''a'', ''b'', ''c''] ! (1 + k), [''a'', ''x'', ''c''] ! (1 + k)))
                 [0..<min 1 1]"
      "l_deleted s' = l_deleted after_first_equal @ [li after_first_equal + min 1 1..<li after_first_equal + 1]"
      "r_blank s' = r_blank after_first_equal @ [ri after_first_equal + min 1 1..<ri after_first_equal + 1]"
      "l_blank s' = l_blank after_first_equal @ [li after_first_equal + min 1 1..<li after_first_equal + 1]"
      "r_added s' = r_added after_first_equal @ [ri after_first_equal + min 1 1..<ri after_first_equal + 1]"
      "diff_blocks (result s') = diff_blocks (result after_first_equal) @ [(li after_first_equal, ri after_first_equal)]"
      "li s' = li after_first_equal + max 1 1" "ri s' = ri after_first_equal + max 1 1"
    by blast
  have g: "l_out s' = [''a'', ''b'']" "r_out s' = [''a'', ''x'']"
        "l_changed s' = [1]" "r_changed s' = [1]"
        "changed_pairs (result s') = [(1, 1, ''b'', ''x'')]"
        "l_deleted s' = []" "r_blank s' = []" "l_blank s' = []" "r_added s' = []"
        "diff_blocks (result s') = [(1, 1)]" "li s' = 2" "ri s' = 2"
    unfolding f by (simp_all add: after_first_equal_def locals_init_def DiffResult_init_def)
  show ?thesis using h s g by blast
qed

text \<open>
  C8. For every line sequence \<open>X\<close>, \<^verbatim>\<open>compute_diff\<close> on \<open>(X, X)\<close> returns a Diff
  Model with no \<^verbatim>\<open>diff_blocks\<close>, no \<^verbatim>\<open>changed_pairs\<close>, and both
  \<^verbatim>\<open>left_lines\<close> and \<^verbatim>\<open>right_lines\<close> equal to \<open>X\<close>.
\<close>

theorem identity:
  "\<exists>d. compute_diff X X = Inr d \<and> diff_blocks d = [] \<and> changed_pairs d = []
       \<and> left_lines d = X \<and> right_lines d = X"
proof (cases "X = []")
  case True
  then have "compute_diff X X = Inr (finish locals_init)"
    by (simp add: compute_diff_def walk_def get_opcodes_same)
  then show ?thesis
    using True by (simp add: finish_def locals_init_def DiffResult_init_def)
next
  case False
  let ?s = "locals_init\<lparr>l_out := l_out locals_init @ take (length X) (drop 0 X),
              r_out := r_out locals_init @ take (length X) (drop 0 X),
              li := li locals_init + length X, ri := ri locals_init + length X\<rparr>"
  have "for_each (equal_body X X 0 0) [0..<length X] locals_init = Inr ?s"
    by (rule equal_loop) simp_all
  then have "compute_diff X X = Inr (finish ?s)"
    using False by (simp add: compute_diff_def walk_def get_opcodes_same process_opcode_def)
  then show ?thesis
    by (simp add: finish_def locals_init_def DiffResult_init_def)
qed

section \<open>The session: \<^verbatim>\<open>CompareSession\<close>\<close>

text \<open>
  Windows and views are held by their ids. \<^verbatim>\<open>block_index\<close> is a Python integer, and
  \<^verbatim>\<open>diff_blocks[block_index]\<close> reads the list as Python does: a negative index counts
  from the end, and an index out of range raises \<^verbatim>\<open>IndexError\<close>.
\<close>

record CompareSession =
  source_window :: nat
  window :: nat
  left_display :: nat
  right_display :: nat
  diff :: DiffResult
  block_index :: int

definition getitem_int :: "'a list \<Rightarrow> int \<Rightarrow> error + 'a" where
  "getitem_int xs i =
     (if 0 \<le> i \<and> i < int (length xs) then Inr (xs ! nat i)
      else if i < 0 \<and> - int (length xs) \<le> i then Inr (xs ! nat (int (length xs) + i))
      else Inl IndexError)"

definition current_block :: "CompareSession \<Rightarrow> error + (nat \<times> nat) option" where
  "current_block self =
     (if diff_blocks (diff self) = [] then Inr None
      else (case getitem_int (diff_blocks (diff self)) (block_index self) of
              Inl e \<Rightarrow> Inl e
            | Inr b \<Rightarrow> Inr (Some b)))"

text \<open>
  \<^verbatim>\<open>next_block\<close> and \<^verbatim>\<open>prev_block\<close> return the block and the session as they leave
  it. Python's \<^verbatim>\<open>%\<close> with a positive divisor is \<open>mod\<close> on \<open>int\<close>.
\<close>

definition next_block :: "CompareSession \<Rightarrow> error + ((nat \<times> nat) option \<times> CompareSession)" where
  "next_block self =
     (if diff_blocks (diff self) = [] then Inr (None, self)
      else
        (let self' = self\<lparr>block_index :=
               (block_index self + 1) mod int (length (diff_blocks (diff self)))\<rparr>
         in case current_block self' of Inl e \<Rightarrow> Inl e | Inr b \<Rightarrow> Inr (b, self')))"

definition prev_block :: "CompareSession \<Rightarrow> error + ((nat \<times> nat) option \<times> CompareSession)" where
  "prev_block self =
     (if diff_blocks (diff self) = [] then Inr (None, self)
      else
        (let self' = self\<lparr>block_index :=
               (block_index self - 1) mod int (length (diff_blocks (diff self)))\<rparr>
         in case current_block self' of Inl e \<Rightarrow> Inl e | Inr b \<Rightarrow> Inr (b, self')))"

text \<open>\<^verbatim>\<open>next_block\<close> called \<open>n\<close> times in a row; the session after the last call.\<close>

fun next_block_times :: "nat \<Rightarrow> CompareSession \<Rightarrow> error + CompareSession" where
  "next_block_times 0 self = Inr self"
| "next_block_times (Suc n) self =
     (case next_block self of Inl e \<Rightarrow> Inl e | Inr (b, self') \<Rightarrow> next_block_times n self')"

text \<open>Two sessions to run the navigation on: one with three blocks, one with none.\<close>

definition session3 :: CompareSession where
  "session3 =
     \<lparr>source_window = 1, window = 2, left_display = 10, right_display = 11,
      diff = DiffResult_init\<lparr>diff_blocks := [(1, 1), (4, 4), (7, 7)]\<rparr>, block_index = 0\<rparr>"

definition session0 :: CompareSession where
  "session0 =
     \<lparr>source_window = 1, window = 2, left_display = 10, right_display = 11,
      diff = DiffResult_init, block_index = 0\<rparr>"

lemma getitem_int_in_range:
  "0 \<le> i \<Longrightarrow> i < int (length xs) \<Longrightarrow> getitem_int xs i = Inr (xs ! nat i)"
  by (simp add: getitem_int_def)

lemma next_block_step:
  assumes "diff_blocks (diff self) \<noteq> []"
  shows "next_block self =
     Inr (Some (diff_blocks (diff self) !
                  nat ((block_index self + 1) mod int (length (diff_blocks (diff self))))),
          self\<lparr>block_index := (block_index self + 1) mod int (length (diff_blocks (diff self)))\<rparr>)"
proof -
  let ?k = "int (length (diff_blocks (diff self)))"
  have k: "0 < ?k" using assms by simp
  have "0 \<le> (block_index self + 1) mod ?k" "(block_index self + 1) mod ?k < ?k"
    using k by simp_all
  then show ?thesis
    using assms by (simp add: next_block_def current_block_def getitem_int_in_range Let_def)
qed

lemma prev_block_step:
  assumes "diff_blocks (diff self) \<noteq> []"
  shows "prev_block self =
     Inr (Some (diff_blocks (diff self) !
                  nat ((block_index self - 1) mod int (length (diff_blocks (diff self))))),
          self\<lparr>block_index := (block_index self - 1) mod int (length (diff_blocks (diff self)))\<rparr>)"
proof -
  let ?k = "int (length (diff_blocks (diff self)))"
  have k: "0 < ?k" using assms by simp
  have "0 \<le> (block_index self - 1) mod ?k" "(block_index self - 1) mod ?k < ?k"
    using k by simp_all
  then show ?thesis
    using assms by (simp add: prev_block_def current_block_def getitem_int_in_range Let_def)
qed

lemma next_block_times_index:
  assumes "diff_blocks (diff self) \<noteq> []"
  shows "next_block_times n self =
     Inr (if n = 0 then self
          else self\<lparr>block_index :=
                 (block_index self + int n) mod int (length (diff_blocks (diff self)))\<rparr>)"
  using assms
proof (induction n arbitrary: self)
  case 0
  then show ?case by simp
next
  case (Suc n)
  let ?k = "int (length (diff_blocks (diff self)))"
  let ?s1 = "self\<lparr>block_index := (block_index self + 1) mod ?k\<rparr>"
  have ne: "diff_blocks (diff ?s1) \<noteq> []" using Suc.prems by simp
  have "((block_index self + 1) mod ?k + int n) mod ?k = (block_index self + 1 + int n) mod ?k"
    by (rule mod_add_left_eq)
  moreover have "block_index self + 1 + int n = block_index self + int (Suc n)" by simp
  ultimately have m: "((block_index self + 1) mod ?k + int n) mod ?k = (block_index self + int (Suc n)) mod ?k"
    by (simp only:)
  have one: "(block_index self + int (Suc 0)) mod ?k = (block_index self + 1) mod ?k" by simp
  show ?case
  proof (cases n)
    case 0
    then show ?thesis using next_block_step[OF Suc.prems] by simp
  next
    case (Suc n')
    then show ?thesis
      using Suc.IH[OF ne] next_block_step[OF Suc.prems] m by simp
  qed
qed

text \<open>
  C6. In a session with \<open>k > 0\<close> blocks and a cursor in \<open>[0, k)\<close>, \<open>k\<close> calls of
  \<^verbatim>\<open>next_block\<close> leave the session as it was, cursor included, and
  \<^verbatim>\<open>prev_block\<close> at cursor 0 moves the cursor to \<open>k - 1\<close> and returns that block. In a
  session with no block, both return \<^verbatim>\<open>None\<close> and leave the session unchanged.
\<close>

theorem navigation_wraparound:
  "(diff_blocks (diff self) \<noteq> [] \<and> 0 \<le> block_index self
      \<and> block_index self < int (length (diff_blocks (diff self)))
    \<longrightarrow> next_block_times (length (diff_blocks (diff self))) self = Inr self
      \<and> (block_index self = 0 \<longrightarrow>
           prev_block self =
             Inr (Some (diff_blocks (diff self) ! (length (diff_blocks (diff self)) - 1)),
                  self\<lparr>block_index := int (length (diff_blocks (diff self))) - 1\<rparr>)))
   \<and> (diff_blocks (diff self) = []
    \<longrightarrow> next_block self = Inr (None, self) \<and> prev_block self = Inr (None, self))"
proof (intro conjI impI)
  assume a: "diff_blocks (diff self) \<noteq> [] \<and> 0 \<le> block_index self
      \<and> block_index self < int (length (diff_blocks (diff self)))"
  let ?k = "length (diff_blocks (diff self))"
  have "(block_index self + int ?k) mod int ?k = block_index self" using a by simp
  then show "next_block_times ?k self = Inr self"
    using next_block_times_index[of self ?k] a by simp
  assume z: "block_index self = 0"
  have k: "0 < int ?k" using a by simp
  have "(- 1) mod int ?k = int ?k - 1" using k by (simp add: zmod_minus1)
  moreover have "nat (int ?k - 1) = ?k - 1" by simp
  ultimately show "prev_block self =
             Inr (Some (diff_blocks (diff self) ! (?k - 1)), self\<lparr>block_index := int ?k - 1\<rparr>)"
    using prev_block_step[of self] a z by simp
next
  assume "diff_blocks (diff self) = []"
  then show "next_block self = Inr (None, self)" by (simp add: next_block_def)
next
  assume "diff_blocks (diff self) = []"
  then show "prev_block self = Inr (None, self)" by (simp add: prev_block_def)
qed

theorem navigation_wraparound_witness:
  "diff_blocks (diff session3) = [(1, 1), (4, 4), (7, 7)] \<and> block_index session3 = 0
   \<and> length (diff_blocks (diff session3)) = 3
   \<and> next_block_times (length (diff_blocks (diff session3))) session3 = Inr session3
   \<and> prev_block session3 = Inr (Some (7, 7), session3\<lparr>block_index := 2\<rparr>)
   \<and> diff_blocks (diff session0) = []
   \<and> next_block session0 = Inr (None, session0) \<and> prev_block session0 = Inr (None, session0)"
proof -
  have b3: "diff_blocks (diff session3) = [(1, 1), (4, 4), (7, 7)]" and i3: "block_index session3 = 0"
    by (simp_all add: session3_def DiffResult_init_def)
  have b0: "diff_blocks (diff session0) = []"
    by (simp add: session0_def DiffResult_init_def)
  have l3: "length (diff_blocks (diff session3)) = 3" by (simp add: b3)
  have h3: "diff_blocks (diff session3) \<noteq> [] \<and> 0 \<le> block_index session3
      \<and> block_index session3 < int (length (diff_blocks (diff session3)))"
    by (simp add: b3 i3)
  have n3: "next_block_times (length (diff_blocks (diff session3))) session3 = Inr session3"
    using navigation_wraparound[of session3] h3 by blast
  have "prev_block session3 =
      Inr (Some (diff_blocks (diff session3) ! (length (diff_blocks (diff session3)) - 1)),
           session3\<lparr>block_index := int (length (diff_blocks (diff session3))) - 1\<rparr>)"
    using navigation_wraparound[of session3] h3 i3 by blast
  then have p3: "prev_block session3 = Inr (Some (7, 7), session3\<lparr>block_index := 2\<rparr>)"
    by (simp add: b3)
  have n0: "next_block session0 = Inr (None, session0) \<and> prev_block session0 = Inr (None, session0)"
    using navigation_wraparound[of session0] by (simp add: b0)
  show ?thesis using b3 i3 b0 l3 n3 p3 n0 by blast
qed

section \<open>The intra-line refiner: \<^verbatim>\<open>_apply_inline_highlights\<close>\<close>

text \<open>
  A \<^verbatim>\<open>sublime.Region(a, b)\<close> is the pair of its two ends, and \<^verbatim>\<open>begin()\<close> is the
  smaller of them. \<^verbatim>\<open>_line_regions(view)\<close> is what the host returns, one region per
  line of the display; the function is embedded from the two region lists on. Its result
  is the pair of lists \<^verbatim>\<open>left_inline\<close>, \<^verbatim>\<open>right_inline\<close> that it hands to
  \<^verbatim>\<open>add_regions\<close>.
\<close>

type_synonym region = "nat \<times> nat"

definition region_begin :: "region \<Rightarrow> nat" where
  "region_begin r = min (fst r) (snd r)"

text \<open>The body of \<^verbatim>\<open>for tag, i1, i2, j1, j2 in matcher.get_opcodes()\<close>.\<close>

definition inline_opcode ::
  "nat \<Rightarrow> nat \<Rightarrow> opcode \<Rightarrow> region list \<times> region list \<Rightarrow> region list \<times> region list" where
  "inline_opcode l_line_start r_line_start opc acc =
     (case opc of (tag, i1, i2, j1, j2) \<Rightarrow>
      case acc of (left_inline, right_inline) \<Rightarrow>
        if tag = Equal then (left_inline, right_inline)
        else
          ((if i1 < i2 then left_inline @ [(l_line_start + i1, l_line_start + i2)]
            else left_inline),
           (if j1 < j2 then right_inline @ [(r_line_start + j1, r_line_start + j2)]
            else right_inline)))"

text \<open>
  The body of \<^verbatim>\<open>for (li, ri, ltext, rtext) in changed_pairs\<close>; the loop variables
  \<^verbatim>\<open>li\<close> and \<^verbatim>\<open>ri\<close> are \<open>l_idx\<close> and \<open>r_idx\<close> here. The two reads
  \<^verbatim>\<open>left_regs[li]\<close> and \<^verbatim>\<open>right_regs[ri]\<close> stand behind the test of the
  \<^verbatim>\<open>continue\<close>, so they are in range.
\<close>

definition inline_pair ::
  "region list \<Rightarrow> region list \<Rightarrow> nat \<times> nat \<times> string \<times> string
    \<Rightarrow> region list \<times> region list \<Rightarrow> region list \<times> region list" where
  "inline_pair left_regs right_regs pair acc =
     (case pair of (l_idx, r_idx, ltext, rtext) \<Rightarrow>
        if l_idx \<ge> length left_regs \<or> r_idx \<ge> length right_regs then acc
        else
          (let l_line_start = region_begin (left_regs ! l_idx);
               r_line_start = region_begin (right_regs ! r_idx)
           in fold (inline_opcode l_line_start r_line_start) (get_opcodes ltext rtext) acc))"

definition apply_inline_highlights ::
  "region list \<Rightarrow> region list \<Rightarrow> (nat \<times> nat \<times> string \<times> string) list
    \<Rightarrow> region list \<times> region list" where
  "apply_inline_highlights left_regs right_regs pairs =
     fold (inline_pair left_regs right_regs) pairs ([], [])"

text \<open>The parameter \<^verbatim>\<open>changed_pairs\<close> is \<open>pairs\<close> here.\<close>

text \<open>
  The spans as the specification words them: for each opcode that is not \<^verbatim>\<open>equal\<close>, a
  left span \<open>[line_start + i1, line_start + i2)\<close> when the left range is not empty, and a
  right span \<open>[line_start + j1, line_start + j2)\<close> when the right range is not empty; a
  pair with a row outside a display's line count gives no span.
\<close>

definition spec_left_spans :: "nat \<Rightarrow> opcode list \<Rightarrow> region list" where
  "spec_left_spans line_start ops =
     map (\<lambda>(tag, i1, i2, j1, j2). (line_start + i1, line_start + i2))
       (filter (\<lambda>(tag, i1, i2, j1, j2). tag \<noteq> Equal \<and> i1 < i2) ops)"

definition spec_right_spans :: "nat \<Rightarrow> opcode list \<Rightarrow> region list" where
  "spec_right_spans line_start ops =
     map (\<lambda>(tag, i1, i2, j1, j2). (line_start + j1, line_start + j2))
       (filter (\<lambda>(tag, i1, i2, j1, j2). tag \<noteq> Equal \<and> j1 < j2) ops)"

definition spec_inline_left ::
  "region list \<Rightarrow> region list \<Rightarrow> (nat \<times> nat \<times> string \<times> string) list \<Rightarrow> region list" where
  "spec_inline_left left_regs right_regs pairs =
     concat (map (\<lambda>(l_idx, r_idx, ltext, rtext).
        if l_idx < length left_regs \<and> r_idx < length right_regs
        then spec_left_spans (region_begin (left_regs ! l_idx)) (get_opcodes ltext rtext)
        else []) pairs)"

definition spec_inline_right ::
  "region list \<Rightarrow> region list \<Rightarrow> (nat \<times> nat \<times> string \<times> string) list \<Rightarrow> region list" where
  "spec_inline_right left_regs right_regs pairs =
     concat (map (\<lambda>(l_idx, r_idx, ltext, rtext).
        if l_idx < length left_regs \<and> r_idx < length right_regs
        then spec_right_spans (region_begin (right_regs ! r_idx)) (get_opcodes ltext rtext)
        else []) pairs)"

lemma spec_left_spans_Cons:
  "spec_left_spans ls (opc # ops) = spec_left_spans ls [opc] @ spec_left_spans ls ops"
  by (simp add: spec_left_spans_def)

lemma spec_right_spans_Cons:
  "spec_right_spans rs (opc # ops) = spec_right_spans rs [opc] @ spec_right_spans rs ops"
  by (simp add: spec_right_spans_def)

lemma inline_opcode_step:
  "inline_opcode ls rs opc (L, R) = (L @ spec_left_spans ls [opc], R @ spec_right_spans rs [opc])"
  by (cases opc) (simp add: inline_opcode_def spec_left_spans_def spec_right_spans_def)

lemma fold_inline_opcode:
  "fold (inline_opcode ls rs) ops (L, R) = (L @ spec_left_spans ls ops, R @ spec_right_spans rs ops)"
proof (induction ops arbitrary: L R)
  case Nil
  then show ?case by (simp add: spec_left_spans_def spec_right_spans_def)
next
  case (Cons opc ops)
  have "fold (inline_opcode ls rs) (opc # ops) (L, R) =
        fold (inline_opcode ls rs) ops (L @ spec_left_spans ls [opc], R @ spec_right_spans rs [opc])"
    by (simp add: inline_opcode_step)
  also have "\<dots> = ((L @ spec_left_spans ls [opc]) @ spec_left_spans ls ops,
                   (R @ spec_right_spans rs [opc]) @ spec_right_spans rs ops)"
    by (rule Cons.IH)
  also have "\<dots> = (L @ spec_left_spans ls (opc # ops), R @ spec_right_spans rs (opc # ops))"
    by (simp add: spec_left_spans_Cons[of ls opc ops] spec_right_spans_Cons[of rs opc ops])
  finally show ?case .
qed

lemma spec_inline_left_Cons:
  "spec_inline_left left_regs right_regs (p # pairs) =
     spec_inline_left left_regs right_regs [p] @ spec_inline_left left_regs right_regs pairs"
  by (simp add: spec_inline_left_def)

lemma spec_inline_right_Cons:
  "spec_inline_right left_regs right_regs (p # pairs) =
     spec_inline_right left_regs right_regs [p] @ spec_inline_right left_regs right_regs pairs"
  by (simp add: spec_inline_right_def)

lemma inline_pair_step:
  "inline_pair left_regs right_regs p (L, R) =
     (L @ spec_inline_left left_regs right_regs [p], R @ spec_inline_right left_regs right_regs [p])"
proof -
  obtain l_idx r_idx ltext rtext where p: "p = (l_idx, r_idx, ltext, rtext)" by (cases p)
  show ?thesis
  proof (cases "l_idx < length left_regs \<and> r_idx < length right_regs")
    case True
    then show ?thesis unfolding p
      by (simp add: inline_pair_def fold_inline_opcode spec_inline_left_def spec_inline_right_def
          Let_def)
  next
    case False
    then show ?thesis unfolding p
      by (auto simp: inline_pair_def spec_inline_left_def spec_inline_right_def)
  qed
qed

lemma fold_inline_pair:
  "fold (inline_pair left_regs right_regs) pairs (L, R) =
     (L @ spec_inline_left left_regs right_regs pairs,
      R @ spec_inline_right left_regs right_regs pairs)"
proof (induction pairs arbitrary: L R)
  case Nil
  then show ?case by (simp add: spec_inline_left_def spec_inline_right_def)
next
  case (Cons p pairs)
  have "fold (inline_pair left_regs right_regs) (p # pairs) (L, R) =
        fold (inline_pair left_regs right_regs) pairs
          (L @ spec_inline_left left_regs right_regs [p],
           R @ spec_inline_right left_regs right_regs [p])"
    by (simp add: inline_pair_step)
  also have "\<dots> = ((L @ spec_inline_left left_regs right_regs [p])
                      @ spec_inline_left left_regs right_regs pairs,
                   (R @ spec_inline_right left_regs right_regs [p])
                      @ spec_inline_right left_regs right_regs pairs)"
    by (rule Cons.IH)
  also have "\<dots> = (L @ spec_inline_left left_regs right_regs (p # pairs),
                   R @ spec_inline_right left_regs right_regs (p # pairs))"
    by (simp add: spec_inline_left_Cons[of _ _ p pairs] spec_inline_right_Cons[of _ _ p pairs])
  finally show ?case .
qed

text \<open>
  C9. \<^verbatim>\<open>_apply_inline_highlights\<close> computes exactly the spans of the specification:
  for each changed pair whose rows are inside both displays, and each opcode between its
  two texts that is not \<^verbatim>\<open>equal\<close>, a left span at the start of the left row when
  \<open>i1 < i2\<close> and a right span at the start of the right row when \<open>j1 < j2\<close>, in the
  order of the pairs and of the opcodes; a pair with a row outside a display gives none.
\<close>

theorem inline_highlights_spans:
  "apply_inline_highlights left_regs right_regs pairs =
     (spec_inline_left left_regs right_regs pairs,
      spec_inline_right left_regs right_regs pairs)"
  using fold_inline_pair[of left_regs right_regs pairs "[]" "[]"]
  by (simp add: apply_inline_highlights_def)

text \<open>
  The example of the specification: the pair \<^verbatim>\<open>("b", "x")\<close> gives a full-range
  replace on both one-character strings; a pair with a row outside the display gives
  nothing.
\<close>

lemma inline_example:
  "apply_inline_highlights [(0, 1), (2, 3), (4, 5)] [(0, 1), (2, 3), (4, 5)]
     [(1, 1, ''b'', ''x''), (7, 1, ''q'', ''r'')] = ([(2, 3)], [(2, 3)])"
  by code_simp

end
